theory Spec2Isabelle
  imports Main "HOL-Library.Extended_Nat" "HOL-Library.Multiset"
begin

section \<open>Data model of the pinning subsystem\<close>

text \<open>
  Embedding of \<^verbatim>\<open>packages/orama/src/components/pinning-manager.ts\<close>.

  An internal document id is a natural number, a position is a natural number (the
  zero-indexed slot requested by a promotion) and a score is an integer: organic scores are
  only copied by the splicer, and the scores it computes itself are
  \<^verbatim>\<open>BASE_PIN_SCORE - position\<close> and \<^verbatim>\<open>0\<close>. The subtraction is done on
  integers, so a position above the base score gives a negative score, as in the source.
\<close>

type_synonym internalDocumentID = nat
type_synonym tokenScore = "internalDocumentID \<times> int"

record promotion =
  doc_id :: string
  position :: nat

datatype anchoring = Is | StartsWith | EndsWith | Contains

record condition =
  anchoring :: anchoring
  pattern :: string

record consequence =
  promote :: "promotion list"

record pinRule =
  rule_id :: string
  conditions :: "condition list"
  consequence :: consequence

text \<open>
  The engine object, as far as \<^verbatim>\<open>applyPinningRules\<close> reads it: the lookup
  \<^verbatim>\<open>getInternalDocumentId(orama.internalDocumentIDStore, doc_id)\<close>, which returns an
  internal id or \<^verbatim>\<open>undefined\<close>, and \<^verbatim>\<open>orama.documentsStore.get(orama.data.docs, id)\<close>,
  which returns a document or \<^verbatim>\<open>undefined\<close>. Both live outside this file of the
  repository and are taken as they are given.
\<close>

record 'doc orama =
  getInternalDocumentId :: "string \<Rightarrow> internalDocumentID option"
  documentsStore_get :: "internalDocumentID \<Rightarrow> 'doc option"

section \<open>JavaScript maps\<close>

text \<open>
  A JavaScript \<^verbatim>\<open>Map\<close> iterates in insertion order, and \<^verbatim>\<open>set\<close> on a key that is
  present overwrites the value where the key stands. An association list with distinct
  keys models it: \<open>map_of\<close> is \<^verbatim>\<open>get\<close>, and \<open>map_set\<close> is \<^verbatim>\<open>set\<close>.
\<close>

fun map_set :: "'k \<Rightarrow> 'v \<Rightarrow> ('k \<times> 'v) list \<Rightarrow> ('k \<times> 'v) list" where
  "map_set k v [] = [(k, v)]"
| "map_set k v (e # m) = (if fst e = k then (k, v) # m else e # map_set k v m)"

section \<open>Conflict resolution\<close>

record resolveState =
  pinnedInternalIds :: "internalDocumentID set"
  promotionsMap :: "(internalDocumentID \<times> nat) list"
  positionsTaken :: "nat set"

definition initialState :: resolveState where
  "initialState = \<lparr>pinnedInternalIds = {}, promotionsMap = [], positionsTaken = {}\<rparr>"

text \<open>The body of the loop over \<^verbatim>\<open>allPromotions\<close> (lines 37 to 62).\<close>

definition resolveStep :: "'doc orama \<Rightarrow> resolveState \<Rightarrow> promotion \<Rightarrow> resolveState" where
  "resolveStep orama st promo =
     (case getInternalDocumentId orama (doc_id promo) of
        None \<Rightarrow> st
      | Some internalId \<Rightarrow>
          (case map_of (promotionsMap st) internalId of
             Some existingPosition \<Rightarrow>
               (if position promo < existingPosition
                then st\<lparr>promotionsMap := map_set internalId (position promo) (promotionsMap st)\<rparr>
                else st)
           | None \<Rightarrow>
               (if position promo \<in> positionsTaken st then st
                else \<lparr>pinnedInternalIds = insert internalId (pinnedInternalIds st),
                      promotionsMap = map_set internalId (position promo) (promotionsMap st),
                      positionsTaken = insert (position promo) (positionsTaken st)\<rparr>)))"

definition resolveLoop :: "'doc orama \<Rightarrow> promotion list \<Rightarrow> resolveState" where
  "resolveLoop orama promos = foldl (resolveStep orama) initialState promos"

text \<open>
  \<^verbatim>\<open>matchingRules.flatMap((rule) => rule.consequence.promote)\<close>, then the in-place
  \<^verbatim>\<open>sort((a, b) => a.position - b.position)\<close>. The sort of an array is stable, and so
  is \<open>sort_key\<close>.
\<close>

definition flatPromotions :: "pinRule list \<Rightarrow> promotion list" where
  "flatPromotions matchingRules = concat (map (\<lambda>rule. promote (consequence rule)) matchingRules)"

definition allPromotions :: "pinRule list \<Rightarrow> promotion list" where
  "allPromotions matchingRules = sort_key position (flatPromotions matchingRules)"

definition resolved :: "'doc orama \<Rightarrow> pinRule list \<Rightarrow> resolveState" where
  "resolved orama matchingRules = resolveLoop orama (allPromotions matchingRules)"

section \<open>Scores of the pinned results\<close>

definition BASE_PIN_SCORE :: int where
  "BASE_PIN_SCORE = 1000000"

text \<open>The loop over \<^verbatim>\<open>promotionsMap.entries()\<close> (lines 77 to 93).\<close>

fun pinnedResultsOf ::
  "'doc orama \<Rightarrow> tokenScore list \<Rightarrow> (internalDocumentID \<times> nat) list \<Rightarrow> tokenScore list" where
  "pinnedResultsOf orama uniqueDocsArray [] = []"
| "pinnedResultsOf orama uniqueDocsArray ((internalId, pos) # entries) =
     (case find (\<lambda>r. fst r = internalId) uniqueDocsArray of
        Some existingResult \<Rightarrow>
          (internalId, BASE_PIN_SCORE - int pos) # pinnedResultsOf orama uniqueDocsArray entries
      | None \<Rightarrow>
          (case documentsStore_get orama internalId of
             Some doc \<Rightarrow> (internalId, 0) # pinnedResultsOf orama uniqueDocsArray entries
           | None \<Rightarrow> pinnedResultsOf orama uniqueDocsArray entries))"

text \<open>
  The sort of \<^verbatim>\<open>pinnedResults\<close> by \<^verbatim>\<open>promotionsMap.get(id) ?? Infinity\<close>
  (lines 96 to 100).
\<close>

definition positionKey :: "(internalDocumentID \<times> nat) list \<Rightarrow> tokenScore \<Rightarrow> enat" where
  "positionKey pm r = (case map_of pm (fst r) of Some p \<Rightarrow> enat p | None \<Rightarrow> \<infinity>)"

definition sortPinned :: "(internalDocumentID \<times> nat) list \<Rightarrow> tokenScore list \<Rightarrow> tokenScore list" where
  "sortPinned pm pinnedResults = sort_key (positionKey pm) pinnedResults"

text \<open>
  \<^verbatim>\<open>pinnedByPosition\<close> (lines 104 to 109). The key is
  \<^verbatim>\<open>promotionsMap.get(pinnedResult[0])!\<close>: the \<^verbatim>\<open>!\<close> only silences the type checker,
  so the key of the map is a position or \<^verbatim>\<open>undefined\<close>, here a \<open>nat option\<close>.
\<close>

definition pinnedByPositionOf ::
  "(internalDocumentID \<times> nat) list \<Rightarrow> tokenScore list \<Rightarrow> (nat option \<times> tokenScore) list" where
  "pinnedByPositionOf pm pinnedResults =
     foldl (\<lambda>m pinnedResult. map_set (map_of pm (fst pinnedResult)) pinnedResult m) [] pinnedResults"

section \<open>Interleaving\<close>

text \<open>The \<^verbatim>\<open>while\<close> loop (lines 115 to 129); \<open>bound\<close> is the right-hand side of its condition.\<close>

function interleave ::
  "(nat option \<times> tokenScore) list \<Rightarrow> tokenScore list \<Rightarrow> nat \<Rightarrow> nat \<Rightarrow> nat \<Rightarrow> tokenScore list
     \<Rightarrow> tokenScore list" where
  "interleave pinnedByPosition unpinnedResults bound unpinnedIndex currentPosition finalResults =
     (if currentPosition < bound then
        (case map_of pinnedByPosition (Some currentPosition) of
           Some pinnedResult \<Rightarrow>
             interleave pinnedByPosition unpinnedResults bound unpinnedIndex
               (currentPosition + 1) (finalResults @ [pinnedResult])
         | None \<Rightarrow>
             (if unpinnedIndex < length unpinnedResults then
                interleave pinnedByPosition unpinnedResults bound (unpinnedIndex + 1)
                  (currentPosition + 1) (finalResults @ [unpinnedResults ! unpinnedIndex])
              else finalResults))
      else finalResults)"
  by pat_completeness auto
termination
  by (relation "measure (\<lambda>(pbp, us, bound, ui, cp, fr). bound - cp)") auto

declare interleave.simps [simp del]

text \<open>
  The loop over \<^verbatim>\<open>pinnedByPosition.entries()\<close> (lines 132 to 136). The length it
  compares with is the length of the list at that moment; a comparison of
  \<^verbatim>\<open>undefined\<close> with a number is false.
\<close>

definition appendStep :: "tokenScore list \<Rightarrow> nat option \<times> tokenScore \<Rightarrow> tokenScore list" where
  "appendStep finalResults entry =
     (case fst entry of
        Some pos \<Rightarrow> if pos \<ge> length finalResults then finalResults @ [snd entry] else finalResults
      | None \<Rightarrow> finalResults)"

definition appendRemaining ::
  "tokenScore list \<Rightarrow> (nat option \<times> tokenScore) list \<Rightarrow> tokenScore list" where
  "appendRemaining finalResults pinnedByPosition = foldl appendStep finalResults pinnedByPosition"

section \<open>The splicer\<close>

text \<open>
  The local values of \<^verbatim>\<open>applyPinningRules\<close>, each as a function of the engine, the
  matching rules and the organic list: \<^verbatim>\<open>unpinnedResults\<close> (line 70),
  \<^verbatim>\<open>pinnedResults\<close> after its sort (lines 75 to 100), \<^verbatim>\<open>pinnedByPosition\<close>
  (lines 104 to 109) and \<^verbatim>\<open>finalResults\<close> when the \<^verbatim>\<open>while\<close> loop ends
  (lines 111 to 129).
\<close>

definition unpinnedResultsOf :: "'doc orama \<Rightarrow> pinRule list \<Rightarrow> tokenScore list \<Rightarrow> tokenScore list" where
  "unpinnedResultsOf orama matchingRules uniqueDocsArray =
     filter (\<lambda>r. fst r \<notin> pinnedInternalIds (resolved orama matchingRules)) uniqueDocsArray"

definition pinnedResultsSorted :: "'doc orama \<Rightarrow> pinRule list \<Rightarrow> tokenScore list \<Rightarrow> tokenScore list" where
  "pinnedResultsSorted orama matchingRules uniqueDocsArray =
     (let pm = promotionsMap (resolved orama matchingRules)
      in sortPinned pm (pinnedResultsOf orama uniqueDocsArray pm))"

definition pinnedByPositionFor ::
  "'doc orama \<Rightarrow> pinRule list \<Rightarrow> tokenScore list \<Rightarrow> (nat option \<times> tokenScore) list" where
  "pinnedByPositionFor orama matchingRules uniqueDocsArray =
     pinnedByPositionOf (promotionsMap (resolved orama matchingRules))
       (pinnedResultsSorted orama matchingRules uniqueDocsArray)"

definition walked :: "'doc orama \<Rightarrow> pinRule list \<Rightarrow> tokenScore list \<Rightarrow> tokenScore list" where
  "walked orama matchingRules uniqueDocsArray =
     (let unpinnedResults = unpinnedResultsOf orama matchingRules uniqueDocsArray;
          pinnedResults = pinnedResultsSorted orama matchingRules uniqueDocsArray
      in interleave (pinnedByPositionFor orama matchingRules uniqueDocsArray) unpinnedResults
           (length unpinnedResults + length pinnedResults) 0 0 [])"

text \<open>
  \<^verbatim>\<open>applyPinningRules\<close> (lines 13 to 139), with its two early returns.
  \<^verbatim>\<open>getMatchingRules\<close> is imported from \<^verbatim>\<open>pinning.js\<close>, which is outside
  this file of the repository: it is a parameter.
\<close>

definition applyPinningRules ::
  "('store \<Rightarrow> string option \<Rightarrow> pinRule list) \<Rightarrow> 'doc orama \<Rightarrow> 'store \<Rightarrow> tokenScore list
     \<Rightarrow> string option \<Rightarrow> tokenScore list" where
  "applyPinningRules getMatchingRules orama pinningStore uniqueDocsArray searchTerm =
     (let matchingRules = getMatchingRules pinningStore searchTerm
      in if length matchingRules = 0 then uniqueDocsArray
         else if length (promotionsMap (resolved orama matchingRules)) = 0 then uniqueDocsArray
         else appendRemaining (walked orama matchingRules uniqueDocsArray)
                (pinnedByPositionFor orama matchingRules uniqueDocsArray))"

section \<open>Auxiliary notions for the proofs\<close>

text \<open>
  The three collections of the conflict-resolution loop describe one placement: the keys of
  \<open>promotionsMap\<close> are \<open>pinnedInternalIds\<close>, its values are \<open>positionsTaken\<close>,
  and no key and no value occurs twice.
\<close>

definition consistent :: "resolveState \<Rightarrow> bool" where
  "consistent st \<longleftrightarrow>
     fst ` set (promotionsMap st) = pinnedInternalIds st \<and>
     snd ` set (promotionsMap st) = positionsTaken st \<and>
     distinct (map fst (promotionsMap st)) \<and>
     distinct (map snd (promotionsMap st))"

text \<open>
  The interleaving loop as a function of what it has left to do: the unpinned results not
  yet emitted, the number of iterations left, and the current position.
\<close>

fun walk :: "(nat \<Rightarrow> 'a option) \<Rightarrow> 'a list \<Rightarrow> nat \<Rightarrow> nat \<Rightarrow> 'a list" where
  "walk f us 0 cp = []"
| "walk f us (Suc n) cp =
     (case f cp of
        Some r \<Rightarrow> r # walk f us n (Suc cp)
      | None \<Rightarrow> (case us of [] \<Rightarrow> [] | u # us' \<Rightarrow> u # walk f us' n (Suc cp)))"

text \<open>
  A promotion is stale for a query when its document id does not resolve, or resolves to a
  document that is neither in the organic list nor in the document store.
\<close>

definition stale :: "'doc orama \<Rightarrow> tokenScore list \<Rightarrow> promotion \<Rightarrow> bool" where
  "stale orama uniqueDocsArray promo =
     (case getInternalDocumentId orama (doc_id promo) of
        None \<Rightarrow> True
      | Some internalId \<Rightarrow>
          find (\<lambda>r. fst r = internalId) uniqueDocsArray = None \<and>
          documentsStore_get orama internalId = None)"

text \<open>
  The document of a promotion is placed at a position smaller than \<open>p\<close> in the
  placement \<open>pm\<close>.
\<close>

definition placedBelow :: "'doc orama \<Rightarrow> (internalDocumentID \<times> nat) list \<Rightarrow> nat \<Rightarrow> promotion \<Rightarrow> bool" where
  "placedBelow orama pm p promo =
     (case getInternalDocumentId orama (doc_id promo) of
        None \<Rightarrow> False
      | Some internalId \<Rightarrow> (case map_of pm internalId of None \<Rightarrow> False | Some e \<Rightarrow> e < p))"

section \<open>A concrete engine\<close>

text \<open>
  Seven document ids resolve: \<^verbatim>\<open>A\<close>, \<^verbatim>\<open>B\<close>, \<^verbatim>\<open>C\<close>, \<^verbatim>\<open>D\<close>,
  \<^verbatim>\<open>X\<close> and \<^verbatim>\<open>Y\<close> to documents of the store, \<^verbatim>\<open>S\<close> to an internal id whose
  document is gone. The organic list holds \<^verbatim>\<open>A\<close>, \<^verbatim>\<open>B\<close> and \<^verbatim>\<open>C\<close>.
\<close>

definition demoOrama :: "unit orama" where
  "demoOrama =
     \<lparr>getInternalDocumentId = map_of [(''A'', 1), (''B'', 2), (''C'', 3), (''D'', 4), (''X'', 5), (''Y'', 6), (''S'', 9)],
      documentsStore_get = map_of [(1, ()), (2, ()), (3, ()), (4, ()), (5, ()), (6, ())]\<rparr>"

definition promoting :: "string \<Rightarrow> (string \<times> nat) list \<Rightarrow> pinRule" where
  "promoting name ps =
     \<lparr>rule_id = name, conditions = [\<lparr>anchoring = Contains, pattern = ''q''\<rparr>],
      consequence = \<lparr>promote = map (\<lambda>(d, p). \<lparr>doc_id = d, position = p\<rparr>) ps\<rparr>\<rparr>"

definition demoOrganic :: "tokenScore list" where
  "demoOrganic = [(1, 9), (2, 8), (3, 7)]"

section \<open>JavaScript maps: lemmas\<close>

lemma map_set_fresh: "k \<notin> fst ` set m \<Longrightarrow> map_set k v m = m @ [(k, v)]"
  by (induction m) auto

section \<open>Conflict resolution on promotions sorted by position\<close>

lemma consistent_initial: "consistent initialState"
  by (simp add: consistent_def initialState_def)

lemma consistent_taken:
  "consistent st \<Longrightarrow> map_of (promotionsMap st) i = Some e \<Longrightarrow> e \<in> positionsTaken st"
  unfolding consistent_def by (metis map_of_SomeD image_eqI snd_conv)

text \<open>The step on a state whose claimed positions are all at most the requested one.\<close>

lemma resolveStep_sorted:
  assumes "consistent st" and "\<forall>q \<in> positionsTaken st. q \<le> position promo"
  shows "resolveStep orama st promo =
     (case getInternalDocumentId orama (doc_id promo) of
        None \<Rightarrow> st
      | Some i \<Rightarrow>
          if i \<in> pinnedInternalIds st \<or> position promo \<in> positionsTaken st then st
          else \<lparr>pinnedInternalIds = insert i (pinnedInternalIds st),
                promotionsMap = promotionsMap st @ [(i, position promo)],
                positionsTaken = insert (position promo) (positionsTaken st)\<rparr>)"
proof (cases "getInternalDocumentId orama (doc_id promo)")
  case None
  then show ?thesis by (simp add: resolveStep_def)
next
  case (Some i)
  show ?thesis
  proof (cases "map_of (promotionsMap st) i")
    case None
    then have "i \<notin> fst ` set (promotionsMap st)" by (simp add: map_of_eq_None_iff)
    moreover from this assms(1) have "i \<notin> pinnedInternalIds st" by (simp add: consistent_def)
    ultimately show ?thesis using Some None by (simp add: resolveStep_def map_set_fresh)
  next
    case (Some e)
    then have "e \<in> positionsTaken st" using assms(1) by (rule consistent_taken[rotated])
    then have "\<not> position promo < e" using assms(2) by auto
    moreover have "i \<in> pinnedInternalIds st"
      using Some assms(1) unfolding consistent_def by (metis map_of_SomeD image_eqI fst_conv)
    ultimately show ?thesis using Some \<open>getInternalDocumentId orama (doc_id promo) = Some i\<close>
      by (simp add: resolveStep_def)
  qed
qed

lemma resolveStep_consistent:
  assumes "consistent st" and "\<forall>q \<in> positionsTaken st. q \<le> position promo"
  shows "consistent (resolveStep orama st promo)"
  using assms unfolding resolveStep_sorted[OF assms]
  by (auto simp: consistent_def split: option.splits)

lemma resolveStep_keeps:
  assumes "consistent st" and "\<forall>q \<in> positionsTaken st. q \<le> position promo"
    and "map_of (promotionsMap st) i = Some e"
  shows "map_of (promotionsMap (resolveStep orama st promo)) i = Some e"
proof -
  have "i \<in> pinnedInternalIds st"
    using assms(1,3) unfolding consistent_def by (metis map_of_SomeD image_eqI fst_conv)
  then show ?thesis
    using assms(3) unfolding resolveStep_sorted[OF assms(1,2)]
    by (auto split: option.splits)
qed

lemma resolveStep_origin:
  assumes "consistent st" and "\<forall>q \<in> positionsTaken st. q \<le> position promo"
    and "map_of (promotionsMap (resolveStep orama st promo)) j = Some q"
  shows "map_of (promotionsMap st) j = Some q \<or>
         (getInternalDocumentId orama (doc_id promo) = Some j \<and> position promo = q)"
  using assms(3) unfolding resolveStep_sorted[OF assms(1,2)]
  by (auto split: option.splits if_splits)

lemma resolveStep_taken_origin:
  assumes "consistent st" and "\<forall>q \<in> positionsTaken st. q \<le> position promo"
  shows "positionsTaken (resolveStep orama st promo) \<subseteq> insert (position promo) (positionsTaken st)"
  unfolding resolveStep_sorted[OF assms]
  by (auto split: option.splits)

lemma resolve_fold_sorted:
  assumes "sorted (map position ps)" and "consistent st"
    and "\<forall>q \<in> positionsTaken st. \<forall>x \<in> set ps. q \<le> position x"
  shows "consistent (foldl (resolveStep orama) st ps) \<and>
         positionsTaken (foldl (resolveStep orama) st ps) \<subseteq> positionsTaken st \<union> position ` set ps \<and>
         (\<forall>i e. map_of (promotionsMap st) i = Some e \<longrightarrow>
            map_of (promotionsMap (foldl (resolveStep orama) st ps)) i = Some e) \<and>
         (\<forall>j q. map_of (promotionsMap (foldl (resolveStep orama) st ps)) j = Some q \<longrightarrow>
            map_of (promotionsMap st) j = Some q \<or>
            (\<exists>x \<in> set ps. getInternalDocumentId orama (doc_id x) = Some j \<and> position x = q))"
  using assms
proof (induction ps arbitrary: st)
  case Nil
  then show ?case by simp
next
  case (Cons x xs)
  let ?st = "resolveStep orama st x"
  have b: "\<forall>q \<in> positionsTaken st. q \<le> position x" using Cons.prems(3) by simp
  have c: "consistent ?st" using Cons.prems(2) b by (rule resolveStep_consistent)
  have t: "positionsTaken ?st \<subseteq> insert (position x) (positionsTaken st)"
    using Cons.prems(2) b by (rule resolveStep_taken_origin)
  have s: "sorted (map position xs)" and le: "\<forall>y \<in> set xs. position x \<le> position y"
    using Cons.prems(1) by auto
  have b': "\<forall>q \<in> positionsTaken ?st. \<forall>y \<in> set xs. q \<le> position y"
    using t le Cons.prems(3) by auto
  note ih = Cons.IH[OF s c b']
  have "positionsTaken (foldl (resolveStep orama) ?st xs) \<subseteq> positionsTaken st \<union> position ` set (x # xs)"
    using ih t by auto
  moreover have "\<forall>i e. map_of (promotionsMap st) i = Some e \<longrightarrow>
      map_of (promotionsMap (foldl (resolveStep orama) ?st xs)) i = Some e"
    using ih resolveStep_keeps[OF Cons.prems(2) b] by blast
  moreover have "\<forall>j q. map_of (promotionsMap (foldl (resolveStep orama) ?st xs)) j = Some q \<longrightarrow>
      map_of (promotionsMap st) j = Some q \<or>
      (\<exists>y \<in> set (x # xs). getInternalDocumentId orama (doc_id y) = Some j \<and> position y = q)"
  proof (intro allI impI)
    fix j q assume "map_of (promotionsMap (foldl (resolveStep orama) ?st xs)) j = Some q"
    with ih have "map_of (promotionsMap ?st) j = Some q \<or>
      (\<exists>y \<in> set xs. getInternalDocumentId orama (doc_id y) = Some j \<and> position y = q)" by blast
    then show "map_of (promotionsMap st) j = Some q \<or>
      (\<exists>y \<in> set (x # xs). getInternalDocumentId orama (doc_id y) = Some j \<and> position y = q)"
      using resolveStep_origin[OF Cons.prems(2) b] by auto
  qed
  ultimately show ?case using ih by simp
qed

lemma sorted_allPromotions: "sorted (map position (allPromotions rules))"
  by (simp add: allPromotions_def)

lemma resolved_consistent: "consistent (resolved orama rules)"
  unfolding resolved_def resolveLoop_def
  using resolve_fold_sorted[OF sorted_allPromotions consistent_initial, of rules orama]
  by (simp add: initialState_def)

lemma resolved_origin:
  assumes "map_of (promotionsMap (resolved orama rules)) j = Some q"
  shows "\<exists>x \<in> set (flatPromotions rules). getInternalDocumentId orama (doc_id x) = Some j \<and> position x = q"
proof -
  have "\<exists>x \<in> set (allPromotions rules). getInternalDocumentId orama (doc_id x) = Some j \<and> position x = q"
    using assms resolve_fold_sorted[OF sorted_allPromotions consistent_initial, of rules orama]
    unfolding resolved_def resolveLoop_def by (simp add: initialState_def)
  then show ?thesis by (simp add: allPromotions_def)
qed

section \<open>The pinned results and their positions\<close>

lemma pinnedResultsOf_set:
  "(i, s) \<in> set (pinnedResultsOf orama org pm) \<longleftrightarrow>
     (\<exists>p. (i, p) \<in> set pm \<and>
        (if i \<in> fst ` set org then s = BASE_PIN_SCORE - int p
         else documentsStore_get orama i \<noteq> None \<and> s = 0))"
proof (induction pm)
  case Nil
  then show ?case by simp
next
  case (Cons e pm)
  obtain j p where e: "e = (j, p)" by (cases e)
  show ?case
  proof (cases "find (\<lambda>r. fst r = j) org")
    case None
    then have "j \<notin> fst ` set org" by (auto simp: find_None_iff)
    then show ?thesis using None Cons e by (cases "documentsStore_get orama j") auto
  next
    case (Some r)
    then have "j \<in> fst ` set org" by (auto simp: find_Some_iff)
    then show ?thesis using Some Cons e by auto
  qed
qed

lemma pinnedResultsOf_ids:
  "\<exists>keep. map fst (pinnedResultsOf orama org pm) = filter keep (map fst pm)"
proof -
  have "map fst (pinnedResultsOf orama org pm) =
    filter (\<lambda>i. find (\<lambda>r. fst r = i) org \<noteq> None \<or> documentsStore_get orama i \<noteq> None) (map fst pm)"
    by (induction pm) (auto split: option.splits)
  then show ?thesis by blast
qed

lemma pinnedResultsOf_distinct:
  "distinct (map fst pm) \<Longrightarrow> distinct (map fst (pinnedResultsOf orama org pm))"
  using pinnedResultsOf_ids[of orama org pm] by (auto simp: distinct_map_filter)

lemma pinnedResultsOf_key:
  "r \<in> set (pinnedResultsOf orama org pm) \<Longrightarrow> \<exists>p. (fst r, p) \<in> set pm"
  using pinnedResultsOf_set[of "fst r" "snd r" orama org pm] by auto

lemma map_set_fold_fresh:
  "distinct (map k rs) \<Longrightarrow> k ` set rs \<inter> fst ` set m = {} \<Longrightarrow>
   foldl (\<lambda>m r. map_set (k r) r m) m rs = m @ map (\<lambda>r. (k r, r)) rs"
proof (induction rs arbitrary: m)
  case Nil
  then show ?case by simp
next
  case (Cons r rs)
  have "k r \<notin> fst ` set m" using Cons.prems(2) by auto
  then have m: "map_set (k r) r m = m @ [(k r, r)]" by (rule map_set_fresh)
  have "k ` set rs \<inter> fst ` set (m @ [(k r, r)]) = {}" using Cons.prems by auto
  with Cons.IH[of "m @ [(k r, r)]"] Cons.prems(1) m show ?case by simp
qed

lemma value_determines_key:
  assumes "distinct (map snd pm)" and "(i, p) \<in> set pm" and "(j, p) \<in> set pm"
  shows "i = j"
proof -
  have "inj_on snd (set pm)" using assms(1) by (simp add: distinct_map)
  then have "(i, p) = (j, p)" using assms(2,3) by (fastforce simp: inj_on_def)
  then show ?thesis by simp
qed

lemma pinned_shape:
  assumes dk: "distinct (map fst pm)" and dv: "distinct (map snd pm)"
  shows "\<exists>ps. pinnedByPositionOf pm (sortPinned pm (pinnedResultsOf orama org pm))
                = map (\<lambda>e. (Some (fst e), snd e)) ps \<and>
              map snd ps = sortPinned pm (pinnedResultsOf orama org pm) \<and>
              sorted_wrt (<) (map fst ps) \<and>
              (\<forall>e \<in> set ps. map_of pm (fst (snd e)) = Some (fst e))"
proof -
  define prs where "prs = pinnedResultsOf orama org pm"
  define Sp where "Sp = sortPinned pm prs"
  define posOf where "posOf = (\<lambda>r::tokenScore. the (map_of pm (fst r)))"
  define ps where "ps = map (\<lambda>r. (posOf r, r)) Sp"
  have setSp: "set Sp = set prs" by (simp add: Sp_def sortPinned_def)
  have key: "map_of pm (fst r) = Some (posOf r)" if "r \<in> set Sp" for r
  proof -
    from that obtain p where "(fst r, p) \<in> set pm"
      using pinnedResultsOf_key[of r orama org pm] by (auto simp: setSp prs_def)
    then have "map_of pm (fst r) = Some p" using dk by simp
    then show ?thesis by (simp add: posOf_def)
  qed
  have "distinct (map fst prs)" unfolding prs_def using dk by (rule pinnedResultsOf_distinct)
  moreover have "mset (map fst Sp) = mset (map fst prs)" by (simp add: Sp_def sortPinned_def)
  ultimately have dSp: "distinct (map fst Sp)" by (metis mset_eq_imp_distinct_iff)
  have inj: "r = r'" if "r \<in> set Sp" "r' \<in> set Sp" "posOf r = posOf r'" for r r'
  proof -
    have "(fst r, posOf r) \<in> set pm" "(fst r', posOf r) \<in> set pm"
      using key[OF that(1)] key[OF that(2)] that(3) by (auto dest: map_of_SomeD)
    then have "fst r = fst r'" using dv by (rule value_determines_key[rotated])
    moreover have "inj_on fst (set Sp)" using dSp by (simp add: distinct_map)
    ultimately show ?thesis using that(1,2) by (auto dest: inj_onD)
  qed
  have dpos: "distinct (map posOf Sp)"
    using dSp inj by (auto simp: distinct_map inj_on_def)
  have dkey: "distinct (map (\<lambda>r. map_of pm (fst r)) Sp)"
  proof -
    have eq: "map (\<lambda>r. map_of pm (fst r)) Sp = map Some (map posOf Sp)" using key by simp
    have "distinct (map Some (map posOf Sp))"
      using dpos by (subst distinct_map) (simp add: inj_on_def)
    then show ?thesis unfolding eq .
  qed
  have "pinnedByPositionOf pm Sp = map (\<lambda>r. (map_of pm (fst r), r)) Sp"
    unfolding pinnedByPositionOf_def
    using map_set_fold_fresh[OF dkey, of "[]"] by simp
  also have "\<dots> = map (\<lambda>e. (Some (fst e), snd e)) ps" using key by (simp add: ps_def)
  finally have 1: "pinnedByPositionOf pm Sp = map (\<lambda>e. (Some (fst e), snd e)) ps" .
  have 2: "map snd ps = Sp" by (simp add: ps_def comp_def)
  have "sorted (map (positionKey pm) Sp)" by (simp add: Sp_def sortPinned_def)
  moreover have "map (positionKey pm) Sp = map enat (map posOf Sp)"
    using key by (simp add: positionKey_def)
  ultimately have "sorted (map enat (map posOf Sp))" by simp
  then have "sorted (map posOf Sp)" by (simp add: sorted_map sorted_wrt_map)
  then have 3: "sorted_wrt (<) (map fst ps)"
    using dpos by (simp add: ps_def comp_def strict_sorted_iff)
  have 4: "\<forall>e \<in> set ps. map_of pm (fst (snd e)) = Some (fst e)" using key by (auto simp: ps_def)
  show ?thesis using 1 2 3 4 unfolding Sp_def prs_def by blast
qed

section \<open>The interleaving walk\<close>

lemma interleave_walk:
  "ui \<le> length us \<Longrightarrow>
   interleave pbp us bound ui cp fr
     = fr @ walk (\<lambda>c. map_of pbp (Some c)) (drop ui us) (bound - cp) cp"
proof (induction pbp us bound ui cp fr rule: interleave.induct)
  case (1 pbp us bound ui cp fr)
  note unfold = interleave.simps[of pbp us bound ui cp fr]
  show ?case
  proof (cases "cp < bound")
    case False
    then show ?thesis by (subst unfold) simp
  next
    case True
    then have fuel: "bound - cp = Suc (bound - Suc cp)" by simp
    show ?thesis
    proof (cases "map_of pbp (Some cp)")
      case (Some r)
      have "interleave pbp us bound ui (cp + 1) (fr @ [r])
            = (fr @ [r]) @ walk (\<lambda>c. map_of pbp (Some c)) (drop ui us) (bound - (cp + 1)) (cp + 1)"
        using True Some "1.prems" by (rule "1.IH"(2))
      then show ?thesis using True Some by (subst unfold) (simp add: fuel)
    next
      case None
      show ?thesis
      proof (cases "ui < length us")
        case False
        with True None "1.prems" show ?thesis by (subst unfold) (simp add: fuel)
      next
        case lt: True
        then have d: "drop ui us = us ! ui # drop (Suc ui) us" by (simp add: Cons_nth_drop_Suc)
        from lt have "ui + 1 \<le> length us" by simp
        with True None lt
        have "interleave pbp us bound (ui + 1) (cp + 1) (fr @ [us ! ui])
            = (fr @ [us ! ui]) @
              walk (\<lambda>c. map_of pbp (Some c)) (drop (ui + 1) us) (bound - (cp + 1)) (cp + 1)"
          by (rule "1.IH"(1))
        then show ?thesis using True None lt by (subst unfold) (simp add: fuel d)
      qed
    qed
  qed
qed

lemma map_of_Some_keys: "map_of (map (\<lambda>e. (Some (fst e), snd e)) ps) (Some c) = map_of ps c"
  by (induction ps) auto

lemma filter_from_pin:
  "sorted_wrt (<) (map fst ps) \<Longrightarrow> map_of ps c = Some r \<Longrightarrow>
   [e \<leftarrow> ps. c \<le> fst e] = (c, r) # [e \<leftarrow> ps. Suc c \<le> fst e]"
proof (induction ps)
  case Nil
  then show ?case by simp
next
  case (Cons a ps)
  obtain k v where a: "a = (k, v)" by (cases a)
  have gt: "\<forall>e \<in> set ps. k < fst e" and s: "sorted_wrt (<) (map fst ps)"
    using Cons.prems(1) a by auto
  show ?case
  proof (cases "k = c")
    case True
    then have "v = r" using Cons.prems(2) a by simp
    moreover have "[e \<leftarrow> ps. c \<le> fst e] = [e \<leftarrow> ps. Suc c \<le> fst e]"
      using gt True by (intro filter_cong) auto
    ultimately show ?thesis using True a by simp
  next
    case False
    then have m: "map_of ps c = Some r" using Cons.prems(2) a by simp
    then have "c \<in> fst ` set ps" by (metis map_of_SomeD image_eqI fst_conv)
    then have "k < c" using gt by auto
    then show ?thesis using Cons.IH[OF s m] a by simp
  qed
qed

lemma filter_from_free:
  "map_of ps c = None \<Longrightarrow> [e \<leftarrow> ps. c \<le> fst e] = [e \<leftarrow> ps. Suc c \<le> fst e]"
proof -
  assume "map_of ps c = None"
  then have "c \<notin> fst ` set ps" by (simp add: map_of_eq_None_iff)
  then show ?thesis by (intro filter_cong) (auto simp: Suc_le_eq le_less)
qed

lemma walk_nth:
  "i < length (walk f us n cp) \<Longrightarrow> f (cp + i) = Some r \<Longrightarrow> walk f us n cp ! i = r"
proof (induction n arbitrary: us cp i)
  case 0
  then show ?case by simp
next
  case (Suc n)
  show ?case
  proof (cases i)
    case 0
    then show ?thesis using Suc.prems by (auto split: option.splits list.splits)
  next
    case (Suc j)
    then show ?thesis using Suc.prems Suc.IH[of j _ "Suc cp"]
      by (auto split: option.splits list.splits)
  qed
qed

lemma walk_mset:
  "sorted_wrt (<) (map fst ps) \<Longrightarrow> length us + length [e \<leftarrow> ps. cp \<le> fst e] \<le> n \<Longrightarrow>
   mset (walk (map_of ps) us n cp)
     = mset us + mset (map snd [e \<leftarrow> ps. cp \<le> fst e \<and> fst e < cp + length (walk (map_of ps) us n cp)])"
proof (induction n arbitrary: us cp)
  case 0
  then show ?case by simp
next
  case (Suc n)
  show ?case
  proof (cases "map_of ps cp")
    case (Some r)
    let ?W = "walk (map_of ps) us n (Suc cp)"
    have f: "[e \<leftarrow> ps. cp \<le> fst e] = (cp, r) # [e \<leftarrow> ps. Suc cp \<le> fst e]"
      using Suc.prems(1) Some by (rule filter_from_pin)
    then have "length us + length [e \<leftarrow> ps. Suc cp \<le> fst e] \<le> n" using Suc.prems(2) by simp
    then have ih: "mset ?W = mset us + mset (map snd [e \<leftarrow> ps. Suc cp \<le> fst e \<and> fst e < Suc cp + length ?W])"
      using Suc.IH[OF Suc.prems(1)] by blast
    have "[e \<leftarrow> ps. cp \<le> fst e \<and> fst e < cp + Suc (length ?W)]
          = filter (\<lambda>e. fst e < cp + Suc (length ?W)) [e \<leftarrow> ps. cp \<le> fst e]"
      by (simp add: conj_commute)
    also have "\<dots> = (cp, r) # filter (\<lambda>e. fst e < cp + Suc (length ?W)) [e \<leftarrow> ps. Suc cp \<le> fst e]"
      by (simp add: f)
    also have "\<dots> = (cp, r) # [e \<leftarrow> ps. Suc cp \<le> fst e \<and> fst e < Suc cp + length ?W]"
      by (simp add: conj_commute)
    finally show ?thesis using Some ih by simp
  next
    case None
    have f: "[e \<leftarrow> ps. cp \<le> fst e] = [e \<leftarrow> ps. Suc cp \<le> fst e]"
      using None by (rule filter_from_free)
    show ?thesis
    proof (cases us)
      case Nil
      have "[e \<leftarrow> ps. cp \<le> fst e \<and> fst e < cp] = []" by (simp add: filter_empty_conv)
      then show ?thesis using None Nil by simp
    next
      case (Cons u us')
      let ?W = "walk (map_of ps) us' n (Suc cp)"
      have "length us' + length [e \<leftarrow> ps. Suc cp \<le> fst e] \<le> n" using Suc.prems(2) f Cons by simp
      then have ih: "mset ?W = mset us' + mset (map snd [e \<leftarrow> ps. Suc cp \<le> fst e \<and> fst e < Suc cp + length ?W])"
        using Suc.IH[OF Suc.prems(1)] by blast
      have "[e \<leftarrow> ps. cp \<le> fst e \<and> fst e < cp + Suc (length ?W)]
          = filter (\<lambda>e. fst e < cp + Suc (length ?W)) [e \<leftarrow> ps. cp \<le> fst e]"
        by (simp add: conj_commute)
      also have "\<dots> = [e \<leftarrow> ps. Suc cp \<le> fst e \<and> fst e < Suc cp + length ?W]"
        by (simp add: f conj_commute)
      finally show ?thesis using None Cons ih by simp
    qed
  qed
qed

lemma walk_filter:
  "sorted_wrt (<) (map fst ps) \<Longrightarrow> length us + length [e \<leftarrow> ps. cp \<le> fst e] \<le> n \<Longrightarrow>
   \<forall>e \<in> set ps. \<not> Q (snd e) \<Longrightarrow> \<forall>u \<in> set us. Q u \<Longrightarrow>
   filter Q (walk (map_of ps) us n cp) = us"
proof (induction n arbitrary: us cp)
  case 0
  then show ?case by simp
next
  case (Suc n)
  show ?case
  proof (cases "map_of ps cp")
    case (Some r)
    have f: "[e \<leftarrow> ps. cp \<le> fst e] = (cp, r) # [e \<leftarrow> ps. Suc cp \<le> fst e]"
      using Suc.prems(1) Some by (rule filter_from_pin)
    then have "length us + length [e \<leftarrow> ps. Suc cp \<le> fst e] \<le> n" using Suc.prems(2) by simp
    then have "filter Q (walk (map_of ps) us n (Suc cp)) = us"
      using Suc.IH[OF Suc.prems(1) _ Suc.prems(3,4)] by blast
    moreover have "(cp, r) \<in> set ps" using Some by (rule map_of_SomeD)
    then have "\<not> Q r" using Suc.prems(3) by fastforce
    ultimately show ?thesis using Some by simp
  next
    case None
    have f: "[e \<leftarrow> ps. cp \<le> fst e] = [e \<leftarrow> ps. Suc cp \<le> fst e]"
      using None by (rule filter_from_free)
    show ?thesis
    proof (cases us)
      case Nil
      then show ?thesis using None by simp
    next
      case (Cons u us')
      have "length us' + length [e \<leftarrow> ps. Suc cp \<le> fst e] \<le> n" using Suc.prems(2) f Cons by simp
      moreover have "\<forall>u \<in> set us'. Q u" and "Q u" using Suc.prems(4) Cons by auto
      ultimately show ?thesis using None Cons Suc.IH[OF Suc.prems(1) _ Suc.prems(3), of us' "Suc cp"]
        by simp
    qed
  qed
qed

lemma appendRemaining_sorted:
  "sorted_wrt (<) (map fst ps) \<Longrightarrow> L \<le> length acc \<Longrightarrow>
   \<forall>e \<in> set ps. L \<le> fst e \<longrightarrow> length acc \<le> fst e \<Longrightarrow>
   foldl appendStep acc (map (\<lambda>e. (Some (fst e), snd e)) ps) = acc @ map snd [e \<leftarrow> ps. L \<le> fst e]"
proof (induction ps arbitrary: acc)
  case Nil
  then show ?case by simp
next
  case (Cons a ps)
  have gt: "\<forall>e \<in> set ps. fst a < fst e" and s: "sorted_wrt (<) (map fst ps)"
    using Cons.prems(1) by auto
  show ?case
  proof (cases "L \<le> fst a")
    case True
    then have "length acc \<le> fst a" using Cons.prems(3) by simp
    then have step: "appendStep acc (Some (fst a), snd a) = acc @ [snd a]"
      by (simp add: appendStep_def)
    have "L \<le> length (acc @ [snd a])" using Cons.prems(2) by simp
    moreover have "\<forall>e \<in> set ps. L \<le> fst e \<longrightarrow> length (acc @ [snd a]) \<le> fst e"
      using gt \<open>length acc \<le> fst a\<close> by auto
    ultimately show ?thesis using Cons.IH[OF s, of "acc @ [snd a]"] step True by simp
  next
    case False
    then have "\<not> length acc \<le> fst a" using Cons.prems(2) by simp
    then have step: "appendStep acc (Some (fst a), snd a) = acc" by (simp add: appendStep_def)
    have "\<forall>e \<in> set ps. L \<le> fst e \<longrightarrow> length acc \<le> fst e" using Cons.prems(3) by simp
    then show ?thesis using Cons.IH[OF s Cons.prems(2)] step False by simp
  qed
qed

section \<open>Structure of the output\<close>

lemma splice_structure:
  obtains ps where
    "pinnedByPositionFor orama rules org = map (\<lambda>e. (Some (fst e), snd e)) ps"
    "map snd ps = pinnedResultsSorted orama rules org"
    "sorted_wrt (<) (map fst ps)"
    "\<forall>e \<in> set ps. map_of (promotionsMap (resolved orama rules)) (fst (snd e)) = Some (fst e)"
    "walked orama rules org
       = walk (map_of ps) (unpinnedResultsOf orama rules org)
           (length (unpinnedResultsOf orama rules org) + length ps) 0"
    "appendRemaining (walked orama rules org) (pinnedByPositionFor orama rules org)
       = walked orama rules org @ map snd [e \<leftarrow> ps. length (walked orama rules org) \<le> fst e]"
proof -
  let ?pm = "promotionsMap (resolved orama rules)"
  have c: "consistent (resolved orama rules)" by (rule resolved_consistent)
  then have dk: "distinct (map fst ?pm)" and dv: "distinct (map snd ?pm)"
    by (simp_all add: consistent_def)
  from pinned_shape[OF dk dv, of orama org] obtain ps where
    1: "pinnedByPositionOf ?pm (sortPinned ?pm (pinnedResultsOf orama org ?pm))
          = map (\<lambda>e. (Some (fst e), snd e)) ps"
    and 2: "map snd ps = sortPinned ?pm (pinnedResultsOf orama org ?pm)"
    and 3: "sorted_wrt (<) (map fst ps)"
    and 4: "\<forall>e \<in> set ps. map_of ?pm (fst (snd e)) = Some (fst e)"
    by blast
  have a: "pinnedByPositionFor orama rules org = map (\<lambda>e. (Some (fst e), snd e)) ps"
    using 1 by (simp add: pinnedByPositionFor_def pinnedResultsSorted_def Let_def)
  have b: "map snd ps = pinnedResultsSorted orama rules org"
    using 2 by (simp add: pinnedResultsSorted_def Let_def)
  have len: "length (pinnedResultsSorted orama rules org) = length ps"
    using b by (metis length_map)
  have f: "(\<lambda>c. map_of (map (\<lambda>e. (Some (fst e), snd e)) ps) (Some c)) = map_of ps"
    by (simp add: fun_eq_iff map_of_Some_keys)
  have w: "walked orama rules org
       = walk (map_of ps) (unpinnedResultsOf orama rules org)
           (length (unpinnedResultsOf orama rules org) + length ps) 0"
    unfolding walked_def Let_def len a
    by (subst interleave_walk) (simp_all add: f)
  have r: "appendRemaining (walked orama rules org) (pinnedByPositionFor orama rules org)
       = walked orama rules org @ map snd [e \<leftarrow> ps. length (walked orama rules org) \<le> fst e]"
    unfolding appendRemaining_def a
    using 3 by (rule appendRemaining_sorted) simp_all
  show thesis using that[OF a b 3 4 w r] .
qed

lemma unpinned_not_pinned:
  "\<forall>u \<in> set (unpinnedResultsOf orama rules org). fst u \<notin> pinnedInternalIds (resolved orama rules)"
  by (simp add: unpinnedResultsOf_def)

lemma pinned_are_pinned:
  assumes "r \<in> set (pinnedResultsSorted orama rules org)"
  shows "fst r \<in> pinnedInternalIds (resolved orama rules)"
proof -
  let ?pm = "promotionsMap (resolved orama rules)"
  from assms have "r \<in> set (pinnedResultsOf orama org ?pm)"
    by (simp add: pinnedResultsSorted_def sortPinned_def Let_def)
  then obtain p where "(fst r, p) \<in> set ?pm" using pinnedResultsOf_key by blast
  then have "fst r \<in> fst ` set ?pm" by (metis image_eqI fst_conv)
  then show ?thesis using resolved_consistent[of orama rules] by (simp add: consistent_def)
qed

lemma walked_filter:
  "filter (\<lambda>r. fst r \<notin> pinnedInternalIds (resolved orama rules)) (walked orama rules org)
     = unpinnedResultsOf orama rules org"
proof -
  obtain ps where
    b: "map snd ps = pinnedResultsSorted orama rules org"
    and s: "sorted_wrt (<) (map fst ps)"
    and w: "walked orama rules org
       = walk (map_of ps) (unpinnedResultsOf orama rules org)
           (length (unpinnedResultsOf orama rules org) + length ps) 0"
    by (rule splice_structure[of orama rules org])
  have "\<forall>e \<in> set ps. \<not> fst (snd e) \<notin> pinnedInternalIds (resolved orama rules)"
  proof
    fix e assume "e \<in> set ps"
    then have "snd e \<in> set (pinnedResultsSorted orama rules org)" using b by (metis image_eqI set_map)
    then show "\<not> fst (snd e) \<notin> pinnedInternalIds (resolved orama rules)"
      using pinned_are_pinned by blast
  qed
  moreover have "length (unpinnedResultsOf orama rules org) + length [e \<leftarrow> ps. 0 \<le> fst e]
      \<le> length (unpinnedResultsOf orama rules org) + length ps" by simp
  ultimately show ?thesis unfolding w
    using walk_filter[OF s, of "unpinnedResultsOf orama rules org" 0 _
        "\<lambda>r. fst r \<notin> pinnedInternalIds (resolved orama rules)"] unpinned_not_pinned[of orama rules org]
    by blast
qed

lemma walk_mset_from_start:
  assumes "sorted_wrt (<) (map fst ps)" and "length us + length ps \<le> n"
  shows "mset (walk (map_of ps) us n 0)
     = mset us + mset (map snd [e \<leftarrow> ps. fst e < length (walk (map_of ps) us n 0)])"
proof -
  have "length us + length [e \<leftarrow> ps. 0 \<le> fst e] \<le> n" using assms(2) by simp
  from walk_mset[OF assms(1) this] show ?thesis by simp
qed

lemma walked_mset:
  obtains ps where
    "map snd ps = pinnedResultsSorted orama rules org"
    "mset (walked orama rules org)
       = mset (unpinnedResultsOf orama rules org)
         + mset (map snd [e \<leftarrow> ps. fst e < length (walked orama rules org)])"
    "appendRemaining (walked orama rules org) (pinnedByPositionFor orama rules org)
       = walked orama rules org @ map snd [e \<leftarrow> ps. length (walked orama rules org) \<le> fst e]"
proof -
  obtain ps where
    b: "map snd ps = pinnedResultsSorted orama rules org"
    and s: "sorted_wrt (<) (map fst ps)"
    and w: "walked orama rules org
       = walk (map_of ps) (unpinnedResultsOf orama rules org)
           (length (unpinnedResultsOf orama rules org) + length ps) 0"
    and r: "appendRemaining (walked orama rules org) (pinnedByPositionFor orama rules org)
       = walked orama rules org @ map snd [e \<leftarrow> ps. length (walked orama rules org) \<le> fst e]"
    by (rule splice_structure[of orama rules org])
  have m: "mset (walked orama rules org)
       = mset (unpinnedResultsOf orama rules org)
         + mset (map snd [e \<leftarrow> ps. fst e < length (walked orama rules org)])"
    unfolding w by (rule walk_mset_from_start[OF s]) simp
  show thesis using b m r by (rule that)
qed

lemma splice_mset:
  "mset (appendRemaining (walked orama rules org) (pinnedByPositionFor orama rules org))
     = mset (unpinnedResultsOf orama rules org) + mset (pinnedResultsSorted orama rules org)"
proof -
  obtain ps where
    b: "map snd ps = pinnedResultsSorted orama rules org"
    and m: "mset (walked orama rules org)
       = mset (unpinnedResultsOf orama rules org)
         + mset (map snd [e \<leftarrow> ps. fst e < length (walked orama rules org)])"
    and r: "appendRemaining (walked orama rules org) (pinnedByPositionFor orama rules org)
       = walked orama rules org @ map snd [e \<leftarrow> ps. length (walked orama rules org) \<le> fst e]"
    by (rule walked_mset[of orama rules org])
  define L where "L = length (walked orama rules org)"
  define A where "A = [e \<leftarrow> ps. fst e < L]"
  define B where "B = [e \<leftarrow> ps. L \<le> fst e]"
  have "mset A + mset B = mset ps"
    unfolding A_def B_def using multiset_partition[of "mset ps" "\<lambda>e. fst e < L"]
    by (simp add: not_less)
  then have "mset (map snd A @ map snd B) = mset (map snd ps)"
    by (metis map_append mset_append mset_map)
  then have part: "mset (map snd A) + mset (map snd B) = mset (pinnedResultsSorted orama rules org)"
    unfolding b by simp
  have "mset (appendRemaining (walked orama rules org) (pinnedByPositionFor orama rules org))
      = mset (walked orama rules org) + mset (map snd B)"
    unfolding r B_def L_def by simp
  also have "\<dots> = (mset (unpinnedResultsOf orama rules org) + mset (map snd A)) + mset (map snd B)"
    unfolding m A_def L_def ..
  also have "\<dots> = mset (unpinnedResultsOf orama rules org) + (mset (map snd A) + mset (map snd B))"
    by (simp only: add.assoc)
  finally show ?thesis unfolding part .
qed

lemma resolved_no_promotion:
  assumes "promotionsMap (resolved orama rules) = []"
  shows "appendRemaining (walked orama rules org) (pinnedByPositionFor orama rules org) = org"
proof -
  have "fst ` set (promotionsMap (resolved orama rules)) = pinnedInternalIds (resolved orama rules)"
    using resolved_consistent[of orama rules] by (simp add: consistent_def)
  then have e: "pinnedInternalIds (resolved orama rules) = {}" using assms by simp
  have u: "unpinnedResultsOf orama rules org = org" by (simp add: unpinnedResultsOf_def e)
  have p: "pinnedByPositionFor orama rules org = []"
    by (simp add: pinnedByPositionFor_def pinnedResultsSorted_def pinnedByPositionOf_def
        sortPinned_def assms)
  have "filter (\<lambda>r. fst r \<notin> pinnedInternalIds (resolved orama rules)) (walked orama rules org) = org"
    using walked_filter[of orama rules org] u by simp
  then have "walked orama rules org = org" by (simp add: e)
  then show ?thesis by (simp add: p appendRemaining_def)
qed

lemma resolved_no_rule: "promotionsMap (resolved orama []) = []"
  by (simp add: resolved_def allPromotions_def flatPromotions_def resolveLoop_def initialState_def)

lemma applyPinningRules_splice:
  "applyPinningRules getMatchingRules orama pinningStore org searchTerm
     = appendRemaining (walked orama (getMatchingRules pinningStore searchTerm) org)
         (pinnedByPositionFor orama (getMatchingRules pinningStore searchTerm) org)"
proof (cases "promotionsMap (resolved orama (getMatchingRules pinningStore searchTerm)) = []")
  case True
  then show ?thesis by (simp add: applyPinningRules_def resolved_no_promotion Let_def)
next
  case False
  then have "getMatchingRules pinningStore searchTerm \<noteq> []" using resolved_no_rule by metis
  with False show ?thesis by (simp add: applyPinningRules_def Let_def)
qed


lemma pinnedResultsSorted_set:
  "set (pinnedResultsSorted orama rules org)
     = set (pinnedResultsOf orama org (promotionsMap (resolved orama rules)))"
  by (simp add: pinnedResultsSorted_def sortPinned_def Let_def)

lemma pinnedResultsSorted_distinct: "distinct (map fst (pinnedResultsSorted orama rules org))"
proof -
  let ?pm = "promotionsMap (resolved orama rules)"
  have "distinct (map fst ?pm)" using resolved_consistent[of orama rules] by (simp add: consistent_def)
  then have "distinct (map fst (pinnedResultsOf orama org ?pm))" by (rule pinnedResultsOf_distinct)
  moreover have "mset (map fst (pinnedResultsSorted orama rules org))
      = mset (map fst (pinnedResultsOf orama org ?pm))"
    by (simp add: pinnedResultsSorted_def sortPinned_def Let_def)
  ultimately show ?thesis by (metis mset_eq_imp_distinct_iff)
qed

lemma splice_set:
  "set (appendRemaining (walked orama rules org) (pinnedByPositionFor orama rules org))
     = set (unpinnedResultsOf orama rules org) \<union> set (pinnedResultsSorted orama rules org)"
  using splice_mset[of orama rules org] by (metis set_mset_mset set_mset_union)

lemma splice_ids_mset:
  "mset (map fst (appendRemaining (walked orama rules org) (pinnedByPositionFor orama rules org)))
     = mset (map fst (unpinnedResultsOf orama rules org) @ map fst (pinnedResultsSorted orama rules org))"
  using splice_mset[of orama rules org] by (metis map_append mset_append mset_map)

lemma pinned_entry:
  "(i, s) \<in> set (pinnedResultsSorted orama rules org) \<longleftrightarrow>
     (\<exists>p. map_of (promotionsMap (resolved orama rules)) i = Some p \<and>
        (if i \<in> fst ` set org then s = BASE_PIN_SCORE - int p
         else documentsStore_get orama i \<noteq> None \<and> s = 0))"
proof -
  have "distinct (map fst (promotionsMap (resolved orama rules)))"
    using resolved_consistent[of orama rules] by (simp add: consistent_def)
  then have "(i, p) \<in> set (promotionsMap (resolved orama rules))
      \<longleftrightarrow> map_of (promotionsMap (resolved orama rules)) i = Some p" for p
    by (auto dest: map_of_SomeD)
  then show ?thesis unfolding pinnedResultsSorted_set pinnedResultsOf_set by simp
qed

lemma one_entry_per_id:
  "distinct (map fst xs) \<Longrightarrow> i \<in> fst ` set xs \<Longrightarrow> length (filter (\<lambda>r. fst r = i) xs) = 1"
proof (induction xs)
  case Nil
  then show ?case by simp
next
  case (Cons x xs)
  show ?case
  proof (cases "fst x = i")
    case True
    then have "i \<notin> fst ` set xs" using Cons.prems(1) by auto
    then have "filter (\<lambda>r. fst r = i) xs = []" by (auto simp: filter_empty_conv)
    then show ?thesis using True by simp
  next
    case False
    then show ?thesis using Cons by auto
  qed
qed

lemma unpinned_subset: "set (unpinnedResultsOf orama rules org) \<subseteq> set org"
  by (auto simp: unpinnedResultsOf_def)

lemma stale_all_no_pin:
  assumes "list_all (stale orama org) (flatPromotions rules)"
    and "map_of (promotionsMap (resolved orama rules)) i = Some p"
  shows "i \<notin> fst ` set org \<and> documentsStore_get orama i = None"
proof -
  from resolved_origin[OF assms(2)] obtain promo where
    "promo \<in> set (flatPromotions rules)" and r: "getInternalDocumentId orama (doc_id promo) = Some i"
    by blast
  then have "stale orama org promo" using assms(1) by (simp add: list_all_iff)
  then show ?thesis using r by (auto simp: stale_def find_None_iff)
qed

lemma stale_all_identity:
  assumes "list_all (stale orama org) (flatPromotions rules)"
  shows "appendRemaining (walked orama rules org) (pinnedByPositionFor orama rules org) = org"
proof -
  let ?pm = "promotionsMap (resolved orama rules)"
  let ?Q = "\<lambda>r::tokenScore. fst r \<notin> pinnedInternalIds (resolved orama rules)"
  have keys: "fst ` set ?pm = pinnedInternalIds (resolved orama rules)"
    and dk: "distinct (map fst ?pm)"
    using resolved_consistent[of orama rules] by (simp_all add: consistent_def)
  have S: "pinnedResultsSorted orama rules org = []"
  proof (cases "pinnedResultsSorted orama rules org")
    case Nil
    then show ?thesis .
  next
    case (Cons x xs)
    then have "(fst x, snd x) \<in> set (pinnedResultsSorted orama rules org)" by simp
    then show ?thesis unfolding pinned_entry using stale_all_no_pin[OF assms] by auto
  qed
  have "\<forall>r \<in> set org. ?Q r"
  proof
    fix r assume r: "r \<in> set org"
    show "?Q r"
    proof
      assume "fst r \<in> pinnedInternalIds (resolved orama rules)"
      then have "fst r \<in> fst ` set ?pm" using keys by simp
      then obtain p where "(fst r, p) \<in> set ?pm" by auto
      then have "map_of ?pm (fst r) = Some p" using dk by simp
      from stale_all_no_pin[OF assms this] r show False by auto
    qed
  qed
  then have U: "unpinnedResultsOf orama rules org = org" by (simp add: unpinnedResultsOf_def)
  have P: "pinnedByPositionFor orama rules org = []"
    by (simp add: pinnedByPositionFor_def S pinnedByPositionOf_def)
  have f: "filter ?Q (walked orama rules org) = org" using walked_filter[of orama rules org] U by simp
  have "mset (walked orama rules org) = mset org"
    using splice_mset[of orama rules org] by (simp add: P S U appendRemaining_def)
  then have "length (walked orama rules org) = length (filter ?Q (walked orama rules org))"
    unfolding f by (rule mset_eq_length)
  then have "filter ?Q (walked orama rules org) = walked orama rules org"
    by (metis length_filter_less less_irrefl_nat filter_True)
  then show ?thesis using f by (simp add: P appendRemaining_def)
qed

section \<open>The loop at one promotion\<close>

lemma filter_eq_append_Cons:
  "filter Q xs = as @ b # cs \<Longrightarrow>
   \<exists>xs1 xs2. xs = xs1 @ b # xs2 \<and> filter Q xs1 = as \<and> filter Q xs2 = cs"
proof (induction xs arbitrary: as)
  case Nil
  then show ?case by simp
next
  case (Cons x xs)
  show ?case
  proof (cases "Q x")
    case False
    with Cons.prems have "filter Q xs = as @ b # cs" by simp
    from Cons.IH[OF this] obtain xs1 xs2 where
      "xs = xs1 @ b # xs2" "filter Q xs1 = as" "filter Q xs2 = cs" by blast
    then have "x # xs = (x # xs1) @ b # xs2 \<and> filter Q (x # xs1) = as \<and> filter Q xs2 = cs"
      using False by simp
    then show ?thesis by blast
  next
    case True
    show ?thesis
    proof (cases as)
      case Nil
      with Cons.prems True have "x # xs = [] @ b # xs \<and> filter Q [] = as \<and> filter Q xs = cs" by simp
      then show ?thesis by blast
    next
      case (Cons a as')
      with Cons.prems True have xa: "x = a" and "filter Q xs = as' @ b # cs" by simp_all
      from Cons.IH[OF this(2)] obtain xs1 xs2 where
        "xs = xs1 @ b # xs2" "filter Q xs1 = as'" "filter Q xs2 = cs" by blast
      then have "x # xs = (x # xs1) @ b # xs2 \<and> filter Q (x # xs1) = as \<and> filter Q xs2 = cs"
        using True xa Cons by simp
      then show ?thesis by blast
    qed
  qed
qed

lemma allPromotions_stable:
  "[x \<leftarrow> allPromotions rules. position x = p \<and> Q x] = [x \<leftarrow> flatPromotions rules. position x = p \<and> Q x]"
proof -
  have "[x \<leftarrow> allPromotions rules. position x = p \<and> Q x]
      = filter Q [x \<leftarrow> sort_key position (flatPromotions rules). position x = p]"
    by (simp add: allPromotions_def conj_commute)
  also have "\<dots> = filter Q [x \<leftarrow> flatPromotions rules. position x = p]"
    by (simp only: sort_key_stable)
  finally show ?thesis by (simp add: conj_commute)
qed

lemma resolved_split:
  assumes "allPromotions rules = S1 @ promo # S2"
  shows "consistent (resolveLoop orama S1)"
    and "\<forall>q \<in> positionsTaken (resolveLoop orama S1). q \<le> position promo"
    and "map_of (promotionsMap (resolveLoop orama S1)) j = Some q \<Longrightarrow>
         \<exists>x \<in> set S1. getInternalDocumentId orama (doc_id x) = Some j \<and> position x = q"
    and "map_of (promotionsMap (resolveLoop orama S1)) j = Some q \<Longrightarrow>
         map_of (promotionsMap (resolved orama rules)) j = Some q"
    and "map_of (promotionsMap (resolveStep orama (resolveLoop orama S1) promo)) j = Some q \<Longrightarrow>
         map_of (promotionsMap (resolved orama rules)) j = Some q"
proof -
  let ?st = "resolveLoop orama S1"
  have srt: "sorted (map position (S1 @ promo # S2))"
    using sorted_allPromotions[of rules] assms by simp
  then have s1: "sorted (map position S1)" and s2: "sorted (map position (promo # S2))"
    and s3: "sorted (map position S2)"
    and le1: "\<forall>x \<in> set S1. position x \<le> position promo"
    and le2: "\<forall>y \<in> set S2. position promo \<le> position y"
    by (auto simp: sorted_append)
  have init: "\<forall>q \<in> positionsTaken initialState. \<forall>x \<in> set S1. q \<le> position x"
    by (simp add: initialState_def)
  note f1 = resolve_fold_sorted[OF s1 consistent_initial init, of orama, folded resolveLoop_def]
  show c: "consistent ?st" using f1 by simp
  have "positionsTaken ?st \<subseteq> position ` set S1" using f1 by (simp add: initialState_def)
  then show b: "\<forall>q \<in> positionsTaken ?st. q \<le> position promo" using le1 by auto
  show "map_of (promotionsMap ?st) j = Some q \<Longrightarrow>
         \<exists>x \<in> set S1. getInternalDocumentId orama (doc_id x) = Some j \<and> position x = q"
    using f1 by (simp add: initialState_def)
  have fin: "resolved orama rules = foldl (resolveStep orama) ?st (promo # S2)"
    by (simp add: resolved_def resolveLoop_def assms)
  have b2: "\<forall>q \<in> positionsTaken ?st. \<forall>x \<in> set (promo # S2). q \<le> position x"
    using b le2 by (auto intro: order_trans)
  show "map_of (promotionsMap ?st) j = Some q \<Longrightarrow>
         map_of (promotionsMap (resolved orama rules)) j = Some q"
    using resolve_fold_sorted[OF s2 c b2, of orama] unfolding fin by blast
  let ?st' = "resolveStep orama ?st promo"
  have c': "consistent ?st'" using c b by (rule resolveStep_consistent)
  have "positionsTaken ?st' \<subseteq> insert (position promo) (positionsTaken ?st)"
    using c b by (rule resolveStep_taken_origin)
  then have b3: "\<forall>q \<in> positionsTaken ?st'. \<forall>x \<in> set S2. q \<le> position x"
    using b le2 by (auto intro: order_trans)
  have fin': "resolved orama rules = foldl (resolveStep orama) ?st' S2"
    by (simp add: resolved_def resolveLoop_def assms)
  show "map_of (promotionsMap ?st') j = Some q \<Longrightarrow>
         map_of (promotionsMap (resolved orama rules)) j = Some q"
    using resolve_fold_sorted[OF s3 c' b3, of orama] unfolding fin' by blast
qed

text \<open>
  A promotion whose position no other document holds at the end has its document placed,
  at that position or below.
\<close>

lemma placed_unless_position_held:
  assumes "promo \<in> set (flatPromotions matchingRules)"
    and "getInternalDocumentId orama (doc_id promo) = Some internalId"
    and "\<forall>j. map_of (promotionsMap (resolved orama matchingRules)) j = Some (position promo)
           \<longrightarrow> j = internalId"
  shows "\<exists>q \<le> position promo.
           map_of (promotionsMap (resolved orama matchingRules)) internalId = Some q"
proof -
  let ?pm = "promotionsMap (resolved orama matchingRules)"
  have "promo \<in> set (allPromotions matchingRules)" using assms(1) by (simp add: allPromotions_def)
  then obtain S1 S2 where S: "allPromotions matchingRules = S1 @ promo # S2"
    by (auto dest: split_list)
  let ?st = "resolveLoop orama S1"
  have c: "consistent ?st" and b: "\<forall>q \<in> positionsTaken ?st. q \<le> position promo"
    by (rule resolved_split(1)[OF S], rule resolved_split(2)[OF S])
  show ?thesis
  proof (cases "map_of (promotionsMap ?st) internalId")
    case (Some e)
    then have "map_of ?pm internalId = Some e" by (rule resolved_split(4)[OF S])
    moreover have "e \<in> positionsTaken ?st" using c Some by (rule consistent_taken)
    then have "e \<le> position promo" using b by simp
    ultimately show ?thesis by blast
  next
    case None
    then have "internalId \<notin> fst ` set (promotionsMap ?st)" by (simp add: map_of_eq_None_iff)
    then have np: "internalId \<notin> pinnedInternalIds ?st" using c by (simp add: consistent_def)
    have free: "position promo \<notin> positionsTaken ?st"
    proof
      assume "position promo \<in> positionsTaken ?st"
      then have "position promo \<in> snd ` set (promotionsMap ?st)" using c by (simp add: consistent_def)
      then obtain j where "(j, position promo) \<in> set (promotionsMap ?st)" by auto
      moreover have "distinct (map fst (promotionsMap ?st))" using c by (simp add: consistent_def)
      ultimately have j: "map_of (promotionsMap ?st) j = Some (position promo)" by simp
      then have "map_of ?pm j = Some (position promo)" by (rule resolved_split(4)[OF S])
      then have "j = internalId" using assms(3) by simp
      then show False using j None by simp
    qed
    have "resolveStep orama ?st promo
        = \<lparr>pinnedInternalIds = insert internalId (pinnedInternalIds ?st),
           promotionsMap = promotionsMap ?st @ [(internalId, position promo)],
           positionsTaken = insert (position promo) (positionsTaken ?st)\<rparr>"
      unfolding resolveStep_sorted[OF c b] using assms(2) np free by simp
    then have "map_of (promotionsMap (resolveStep orama ?st promo)) internalId = Some (position promo)"
      using None by (simp add: map_add_def)
    then have "map_of ?pm internalId = Some (position promo)" by (rule resolved_split(5)[OF S])
    then show ?thesis by blast
  qed
qed

section \<open>Order of iteration and ownership of a position\<close>

text \<open>
  Claim C1 says that the loop iterates the flattened promotions in the order they are
  encountered, and that of two promotions of different documents for one position the one
  that is earlier in the flattened order wins, the later one being skipped. The source sorts
  the flattened promotions by position before the loop (line 30), so the loop does not
  follow the flattened order. With the rules \<^verbatim>\<open>[A at 5]\<close>, \<^verbatim>\<open>[B at 5]\<close>,
  \<^verbatim>\<open>[A at 0]\<close>, both \<^verbatim>\<open>A\<close> and \<^verbatim>\<open>B\<close> resolve and request position 5, and
  \<^verbatim>\<open>A at 5\<close> is the earlier one; the loop places \<^verbatim>\<open>A\<close> at 0 first, skips
  \<^verbatim>\<open>A at 5\<close>, and gives position 5 to the later promotion \<^verbatim>\<open>B at 5\<close>.
\<close>

theorem flattened_order_counterexample:
  "flatPromotions [promoting ''r1'' [(''A'', 5)], promoting ''r2'' [(''B'', 5)], promoting ''r3'' [(''A'', 0)]]
     = [\<lparr>doc_id = ''A'', position = 5\<rparr>, \<lparr>doc_id = ''B'', position = 5\<rparr>, \<lparr>doc_id = ''A'', position = 0\<rparr>] \<and>
   getInternalDocumentId demoOrama ''A'' = Some 1 \<and> getInternalDocumentId demoOrama ''B'' = Some 2 \<and>
   allPromotions [promoting ''r1'' [(''A'', 5)], promoting ''r2'' [(''B'', 5)], promoting ''r3'' [(''A'', 0)]]
     \<noteq> flatPromotions [promoting ''r1'' [(''A'', 5)], promoting ''r2'' [(''B'', 5)], promoting ''r3'' [(''A'', 0)]] \<and>
   promotionsMap (resolved demoOrama [promoting ''r1'' [(''A'', 5)], promoting ''r2'' [(''B'', 5)], promoting ''r3'' [(''A'', 0)]])
     = [(1, 0), (2, 5)] \<and>
   applyPinningRules (\<lambda>store term. [promoting ''r1'' [(''A'', 5)], promoting ''r2'' [(''B'', 5)], promoting ''r3'' [(''A'', 0)]])
       demoOrama () demoOrganic (Some ''q'')
     = [(1, 1000000), (3, 7), (2, 999995)]"
  by code_simp

text \<open>
  Claim C1, amended. The loop iterates the promotions sorted by ascending position, and the
  sort is stable, so the promotions that request one position \<open>p\<close> are met in their
  flattened order. Among the promotions that request \<open>p\<close> and resolve to an internal id,
  taken in flattened order, the first one whose document is not placed at a smaller position
  wins \<open>p\<close>: its document is placed at \<open>p\<close>, and no other document is.
\<close>

theorem first_eligible_promotion_wins_position:
  assumes "[x \<leftarrow> flatPromotions matchingRules.
              position x = p \<and> getInternalDocumentId orama (doc_id x) \<noteq> None] = earlier @ promo # later"
    and "list_all (placedBelow orama (promotionsMap (resolved orama matchingRules)) p) earlier"
    and "\<not> placedBelow orama (promotionsMap (resolved orama matchingRules)) p promo"
    and "getInternalDocumentId orama (doc_id promo) = Some internalId"
  shows "map_of (promotionsMap (resolved orama matchingRules)) internalId = Some p \<and>
         (\<forall>j. map_of (promotionsMap (resolved orama matchingRules)) j = Some p \<longrightarrow> j = internalId)"
proof -
  let ?Q = "\<lambda>x. position x = p \<and> getInternalDocumentId orama (doc_id x) \<noteq> None"
  let ?pm = "promotionsMap (resolved orama matchingRules)"
  have "filter ?Q (allPromotions matchingRules) = earlier @ promo # later"
    using assms(1) allPromotions_stable[of p "\<lambda>x. getInternalDocumentId orama (doc_id x) \<noteq> None" matchingRules]
    by simp
  from filter_eq_append_Cons[OF this]
  obtain S1 S2 where S: "allPromotions matchingRules = S1 @ promo # S2"
    and S1: "filter ?Q S1 = earlier"
    by blast
  let ?st = "resolveLoop orama S1"
  have "promo \<in> set (filter ?Q (flatPromotions matchingRules))" using assms(1) by simp
  then have pos: "position promo = p" by simp
  have c: "consistent ?st" and b: "\<forall>q \<in> positionsTaken ?st. q \<le> position promo"
    by (rule resolved_split(1)[OF S], rule resolved_split(2)[OF S])
  have fin: "consistent (resolved orama matchingRules)" by (rule resolved_consistent)
  have placed: "map_of ?pm internalId = Some p"
  proof (cases "map_of (promotionsMap ?st) internalId")
    case (Some e)
    then have "map_of ?pm internalId = Some e" by (rule resolved_split(4)[OF S])
    moreover from this have "\<not> e < p" using assms(3,4) by (simp add: placedBelow_def)
    moreover have "e \<in> positionsTaken ?st" using c Some by (rule consistent_taken)
    then have "e \<le> p" using b pos by simp
    ultimately show ?thesis by simp
  next
    case None
    then have "internalId \<notin> fst ` set (promotionsMap ?st)" by (simp add: map_of_eq_None_iff)
    then have np: "internalId \<notin> pinnedInternalIds ?st" using c by (simp add: consistent_def)
    have free: "p \<notin> positionsTaken ?st"
    proof
      assume "p \<in> positionsTaken ?st"
      then have "p \<in> snd ` set (promotionsMap ?st)" using c by (simp add: consistent_def)
      then obtain j where "(j, p) \<in> set (promotionsMap ?st)" by auto
      moreover have "distinct (map fst (promotionsMap ?st))" using c by (simp add: consistent_def)
      ultimately have j: "map_of (promotionsMap ?st) j = Some p" by simp
      from resolved_split(3)[OF S j] obtain x where
        x: "x \<in> set S1" "getInternalDocumentId orama (doc_id x) = Some j" "position x = p" by blast
      then have "x \<in> set (filter ?Q S1)" by simp
      then have "x \<in> set earlier" unfolding S1 .
      then have "placedBelow orama ?pm p x" using assms(2) by (simp add: list_all_iff)
      then obtain e where "map_of ?pm j = Some e" "e < p"
        using x(2) by (auto simp: placedBelow_def split: option.splits)
      moreover have "map_of ?pm j = Some p" using j by (rule resolved_split(4)[OF S])
      ultimately show False by simp
    qed
    have "resolveStep orama ?st promo
        = \<lparr>pinnedInternalIds = insert internalId (pinnedInternalIds ?st),
           promotionsMap = promotionsMap ?st @ [(internalId, position promo)],
           positionsTaken = insert (position promo) (positionsTaken ?st)\<rparr>"
      unfolding resolveStep_sorted[OF c b] using assms(4) np free pos by simp
    then have "map_of (promotionsMap (resolveStep orama ?st promo)) internalId = Some p"
      using None pos by (simp add: map_add_def)
    then show ?thesis by (rule resolved_split(5)[OF S])
  qed
  have "j = internalId" if "map_of ?pm j = Some p" for j
  proof -
    have "distinct (map snd ?pm)" using fin by (simp add: consistent_def)
    moreover have "(j, p) \<in> set ?pm" "(internalId, p) \<in> set ?pm"
      using that placed by (auto dest: map_of_SomeD)
    ultimately show ?thesis by (rule value_determines_key)
  qed
  with placed show ?thesis by blast
qed

theorem first_eligible_promotion_wins_position_witness:
  "[x \<leftarrow> flatPromotions [promoting ''r1'' [(''A'', 5)], promoting ''r2'' [(''B'', 5)], promoting ''r3'' [(''A'', 0)]].
      position x = 5 \<and> getInternalDocumentId demoOrama (doc_id x) \<noteq> None]
     = [\<lparr>doc_id = ''A'', position = 5\<rparr>] @ \<lparr>doc_id = ''B'', position = 5\<rparr> # [] \<and>
   list_all (placedBelow demoOrama
       (promotionsMap (resolved demoOrama [promoting ''r1'' [(''A'', 5)], promoting ''r2'' [(''B'', 5)], promoting ''r3'' [(''A'', 0)]])) 5)
     [\<lparr>doc_id = ''A'', position = 5\<rparr>] \<and>
   \<not> placedBelow demoOrama
       (promotionsMap (resolved demoOrama [promoting ''r1'' [(''A'', 5)], promoting ''r2'' [(''B'', 5)], promoting ''r3'' [(''A'', 0)]])) 5
       \<lparr>doc_id = ''B'', position = 5\<rparr> \<and>
   getInternalDocumentId demoOrama (doc_id \<lparr>doc_id = ''B'', position = 5\<rparr>) = Some 2 \<and>
   map_of (promotionsMap (resolved demoOrama [promoting ''r1'' [(''A'', 5)], promoting ''r2'' [(''B'', 5)], promoting ''r3'' [(''A'', 0)]])) 2
     = Some 5"
proof -
  let ?rules = "[promoting ''r1'' [(''A'', 5)], promoting ''r2'' [(''B'', 5)], promoting ''r3'' [(''A'', 0)]]"
  have h1: "[x \<leftarrow> flatPromotions ?rules.
      position x = 5 \<and> getInternalDocumentId demoOrama (doc_id x) \<noteq> None]
     = [\<lparr>doc_id = ''A'', position = 5\<rparr>] @ \<lparr>doc_id = ''B'', position = 5\<rparr> # []"
    by code_simp
  have h2: "list_all (placedBelow demoOrama (promotionsMap (resolved demoOrama ?rules)) 5)
     [\<lparr>doc_id = ''A'', position = 5\<rparr>]"
    by code_simp
  have h3: "\<not> placedBelow demoOrama (promotionsMap (resolved demoOrama ?rules)) 5
       \<lparr>doc_id = ''B'', position = 5\<rparr>"
    by code_simp
  have h4: "getInternalDocumentId demoOrama (doc_id \<lparr>doc_id = ''B'', position = 5\<rparr>) = Some 2"
    by code_simp
  from first_eligible_promotion_wins_position[OF h1 h2 h3 h4]
  have "map_of (promotionsMap (resolved demoOrama ?rules)) 2 = Some 5" by blast
  with h1 h2 h3 h4 show ?thesis by blast
qed

section \<open>Pins and their positions in the output\<close>

text \<open>
  Claim C2 says that every placed pin with claimed position \<open>i\<close> below the length of the
  final list stands at index \<open>i\<close> of it. With the organic list \<^verbatim>\<open>[A]\<close> and the pins
  \<^verbatim>\<open>X at 2\<close> and \<^verbatim>\<open>Y at 3\<close>, the walk stops after \<^verbatim>\<open>A\<close>, both pins are
  appended, and the output \<^verbatim>\<open>[A, X, Y]\<close> has length 3 and holds \<^verbatim>\<open>Y\<close>, not
  \<^verbatim>\<open>X\<close>, at index 2.
\<close>

theorem pin_position_counterexample:
  "(5, 0) \<in> set (pinnedResultsSorted demoOrama [promoting ''r1'' [(''X'', 2), (''Y'', 3)]] [(1, 9)]) \<and>
   map_of (promotionsMap (resolved demoOrama [promoting ''r1'' [(''X'', 2), (''Y'', 3)]])) 5 = Some 2 \<and>
   applyPinningRules (\<lambda>store term. [promoting ''r1'' [(''X'', 2), (''Y'', 3)]]) demoOrama () [(1, 9)] (Some ''q'')
     = [(1, 9), (5, 0), (6, 0)] \<and>
   2 < length (applyPinningRules (\<lambda>store term. [promoting ''r1'' [(''X'', 2), (''Y'', 3)]]) demoOrama () [(1, 9)] (Some ''q'')) \<and>
   applyPinningRules (\<lambda>store term. [promoting ''r1'' [(''X'', 2), (''Y'', 3)]]) demoOrama () [(1, 9)] (Some ''q'') ! 2
     \<noteq> (5, 0)"
  by code_simp

text \<open>
  Claim C2, amended. Every placed pin whose claimed position \<open>p\<close> is below the length of
  the list built by the interleaving walk, that is, before the remaining pins are appended,
  stands at index \<open>p\<close> of the output.
\<close>

theorem pin_reached_by_walk_keeps_position:
  assumes "(i, s) \<in> set (pinnedResultsSorted orama (getMatchingRules pinningStore searchTerm) uniqueDocsArray)"
    and "map_of (promotionsMap (resolved orama (getMatchingRules pinningStore searchTerm))) i = Some p"
    and "p < length (walked orama (getMatchingRules pinningStore searchTerm) uniqueDocsArray)"
  shows "applyPinningRules getMatchingRules orama pinningStore uniqueDocsArray searchTerm ! p = (i, s)"
proof -
  define rules where "rules = getMatchingRules pinningStore searchTerm"
  obtain ps where
    b: "map snd ps = pinnedResultsSorted orama rules uniqueDocsArray"
    and srt: "sorted_wrt (<) (map fst ps)"
    and k: "\<forall>e \<in> set ps. map_of (promotionsMap (resolved orama rules)) (fst (snd e)) = Some (fst e)"
    and w: "walked orama rules uniqueDocsArray
       = walk (map_of ps) (unpinnedResultsOf orama rules uniqueDocsArray)
           (length (unpinnedResultsOf orama rules uniqueDocsArray) + length ps) 0"
    and r: "appendRemaining (walked orama rules uniqueDocsArray) (pinnedByPositionFor orama rules uniqueDocsArray)
       = walked orama rules uniqueDocsArray
         @ map snd [e \<leftarrow> ps. length (walked orama rules uniqueDocsArray) \<le> fst e]"
    by (rule splice_structure[of orama rules uniqueDocsArray])
  have "(i, s) \<in> snd ` set ps" using assms(1) b unfolding rules_def by (metis set_map)
  then obtain q where q: "(q, (i, s)) \<in> set ps" by force
  then have "map_of (promotionsMap (resolved orama rules)) i = Some q" using k by fastforce
  then have "q = p" using assms(2) unfolding rules_def by simp
  moreover have "distinct (map fst ps)" using srt by (simp add: strict_sorted_iff)
  ultimately have "map_of ps (0 + p) = Some (i, s)" using q by simp
  moreover have "p < length (walk (map_of ps) (unpinnedResultsOf orama rules uniqueDocsArray)
           (length (unpinnedResultsOf orama rules uniqueDocsArray) + length ps) 0)"
    using assms(3) unfolding rules_def[symmetric] w .
  ultimately have "walked orama rules uniqueDocsArray ! p = (i, s)"
    unfolding w by (rule walk_nth[rotated])
  then show ?thesis
    unfolding applyPinningRules_splice rules_def[symmetric] r
    using assms(3) unfolding rules_def[symmetric] by (simp add: nth_append)
qed

theorem pin_reached_by_walk_keeps_position_witness:
  "(4, 0) \<in> set (pinnedResultsSorted demoOrama [promoting ''r1'' [(''D'', 2)]] demoOrganic) \<and>
   map_of (promotionsMap (resolved demoOrama [promoting ''r1'' [(''D'', 2)]])) 4 = Some 2 \<and>
   2 < length (walked demoOrama [promoting ''r1'' [(''D'', 2)]] demoOrganic) \<and>
   applyPinningRules (\<lambda>store term. [promoting ''r1'' [(''D'', 2)]]) demoOrama () demoOrganic (Some ''q'') ! 2 = (4, 0)"
proof -
  have h1: "(4, 0) \<in> set (pinnedResultsSorted demoOrama [promoting ''r1'' [(''D'', 2)]] demoOrganic)"
    by code_simp
  have h2: "map_of (promotionsMap (resolved demoOrama [promoting ''r1'' [(''D'', 2)]])) 4 = Some 2"
    by code_simp
  have h3: "2 < length (walked demoOrama [promoting ''r1'' [(''D'', 2)]] demoOrganic)"
    by code_simp
  from pin_reached_by_walk_keeps_position
    [where getMatchingRules = "\<lambda>store term. [promoting ''r1'' [(''D'', 2)]]" and pinningStore = "()"
       and searchTerm = "Some ''q''", OF h1 h2 h3]
  have "applyPinningRules (\<lambda>store term. [promoting ''r1'' [(''D'', 2)]]) demoOrama () demoOrganic (Some ''q'') ! 2
      = (4, 0)" .
  with h1 h2 h3 show ?thesis by blast
qed

section \<open>A document promoted more than once\<close>

text \<open>
  Claim C3 says that a document that is already placed by an earlier promotion and is
  promoted again at a strictly smaller position \<open>p\<close> is moved to \<open>p\<close>, its old position
  being released from the taken set and \<open>p\<close> claimed. With \<^verbatim>\<open>A at 5\<close>,
  \<^verbatim>\<open>B at 0\<close>, then \<^verbatim>\<open>A at 0\<close> in the flattened order, position 0 is held by
  \<^verbatim>\<open>B\<close>: \<^verbatim>\<open>A\<close> is not moved to 0 but stays at 5, and both positions are taken.
\<close>

theorem move_onto_held_position_counterexample:
  "flatPromotions [promoting ''r1'' [(''A'', 5), (''B'', 0)], promoting ''r2'' [(''A'', 0)]]
     = [\<lparr>doc_id = ''A'', position = 5\<rparr>, \<lparr>doc_id = ''B'', position = 0\<rparr>, \<lparr>doc_id = ''A'', position = 0\<rparr>] \<and>
   getInternalDocumentId demoOrama ''A'' = Some 1 \<and> getInternalDocumentId demoOrama ''B'' = Some 2 \<and>
   promotionsMap (resolved demoOrama [promoting ''r1'' [(''A'', 5), (''B'', 0)], promoting ''r2'' [(''A'', 0)]])
     = [(2, 0), (1, 5)] \<and>
   positionsTaken (resolved demoOrama [promoting ''r1'' [(''A'', 5), (''B'', 0)], promoting ''r2'' [(''A'', 0)]])
     = {0, 5} \<and>
   applyPinningRules (\<lambda>store term. [promoting ''r1'' [(''A'', 5), (''B'', 0)], promoting ''r2'' [(''A'', 0)]])
       demoOrama () demoOrganic (Some ''q'')
     = [(2, 1000000), (3, 7), (1, 999995)]"
  by code_simp

text \<open>
  Claim C3, amended. When a document that an earlier promotion of the flattened sequence
  requests at some position is promoted again at a strictly smaller position \<open>p\<close>, and
  \<open>p\<close> is not held by another document (nor the document placed at a still smaller
  position), the document is placed at \<open>p\<close>, \<open>p\<close> is in the taken set, and the
  position requested before is in the taken set only when another document holds it. The
  loop goes through the promotions in ascending order of position: when it reaches a
  promotion of a document that is already placed, the requested position is not smaller
  than the position the document has, and the existing placement, the taken positions and
  the pinned ids are kept unchanged.
\<close>

theorem repeated_promotion_moves_or_keeps:
  "(flatPromotions matchingRules = before @ older # between @ newer # after \<and>
    getInternalDocumentId orama (doc_id older) = Some internalId \<and>
    getInternalDocumentId orama (doc_id newer) = Some internalId \<and>
    position newer < position older \<and>
    [e \<leftarrow> promotionsMap (resolved orama matchingRules).
       snd e = position newer \<and> fst e \<noteq> internalId] = [] \<and>
    \<not> placedBelow orama (promotionsMap (resolved orama matchingRules)) (position newer) newer
    \<longrightarrow>
      map_of (promotionsMap (resolved orama matchingRules)) internalId = Some (position newer) \<and>
      position newer \<in> positionsTaken (resolved orama matchingRules) \<and>
      (position older \<in> positionsTaken (resolved orama matchingRules) \<longleftrightarrow>
         (\<exists>j. j \<noteq> internalId \<and>
              map_of (promotionsMap (resolved orama matchingRules)) j = Some (position older)))) \<and>
   (allPromotions matchingRules = earlier @ promo # later \<and>
    getInternalDocumentId orama (doc_id promo) = Some placedId \<and>
    map_of (promotionsMap (resolveLoop orama earlier)) placedId = Some existingPosition
    \<longrightarrow>
      existingPosition \<le> position promo \<and>
      resolveStep orama (resolveLoop orama earlier) promo = resolveLoop orama earlier)"
proof (intro conjI impI)
  let ?pm = "promotionsMap (resolved orama matchingRules)"
  let ?tk = "positionsTaken (resolved orama matchingRules)"
  assume a: "flatPromotions matchingRules = before @ older # between @ newer # after \<and>
    getInternalDocumentId orama (doc_id older) = Some internalId \<and>
    getInternalDocumentId orama (doc_id newer) = Some internalId \<and>
    position newer < position older \<and>
    [e \<leftarrow> ?pm. snd e = position newer \<and> fst e \<noteq> internalId] = [] \<and>
    \<not> placedBelow orama ?pm (position newer) newer"
  have fin: "consistent (resolved orama matchingRules)" by (rule resolved_consistent)
  then have vals: "snd ` set ?pm = ?tk" and dk: "distinct (map fst ?pm)"
    by (simp_all add: consistent_def)
  have fl: "flatPromotions matchingRules = before @ older # between @ newer # after"
    using a by (elim conjE)
  have res: "getInternalDocumentId orama (doc_id newer) = Some internalId" using a by (elim conjE)
  have lt: "position newer < position older" using a by (elim conjE)
  have none: "[e \<leftarrow> ?pm. snd e = position newer \<and> fst e \<noteq> internalId] = []"
    using a by (elim conjE)
  have free: "\<forall>j. map_of ?pm j = Some (position newer) \<longrightarrow> j = internalId"
  proof (intro allI impI, rule ccontr)
    fix j assume "map_of ?pm j = Some (position newer)" and "j \<noteq> internalId"
    then have "(j, position newer) \<in> set [e \<leftarrow> ?pm. snd e = position newer \<and> fst e \<noteq> internalId]"
      by (auto dest: map_of_SomeD)
    then show False unfolding none by simp
  qed
  have nb: "\<not> placedBelow orama ?pm (position newer) newer" using a by (elim conjE)
  have mem: "newer \<in> set (flatPromotions matchingRules)" unfolding fl by simp
  from placed_unless_position_held[OF mem res free]
  obtain q where q: "q \<le> position newer" "map_of ?pm internalId = Some q" by blast
  moreover have "\<not> q < position newer" using nb res q(2) by (simp add: placedBelow_def)
  ultimately show placed: "map_of ?pm internalId = Some (position newer)" by simp
  then have "(internalId, position newer) \<in> set ?pm" by (rule map_of_SomeD)
  then have "position newer \<in> snd ` set ?pm" by force
  then show "position newer \<in> ?tk" unfolding vals .
  show "position older \<in> ?tk \<longleftrightarrow> (\<exists>j. j \<noteq> internalId \<and> map_of ?pm j = Some (position older))"
  proof
    assume "position older \<in> ?tk"
    then have "position older \<in> snd ` set ?pm" unfolding vals .
    then obtain j where "(j, position older) \<in> set ?pm" by auto
    then have j: "map_of ?pm j = Some (position older)" using dk by simp
    moreover have "j \<noteq> internalId" using j placed lt by auto
    ultimately show "\<exists>j. j \<noteq> internalId \<and> map_of ?pm j = Some (position older)" by blast
  next
    assume "\<exists>j. j \<noteq> internalId \<and> map_of ?pm j = Some (position older)"
    then obtain j where "map_of ?pm j = Some (position older)" by blast
    then have "(j, position older) \<in> set ?pm" by (rule map_of_SomeD)
    then have "position older \<in> snd ` set ?pm" by force
    then show "position older \<in> ?tk" unfolding vals .
  qed
next
  assume a: "allPromotions matchingRules = earlier @ promo # later \<and>
    getInternalDocumentId orama (doc_id promo) = Some placedId \<and>
    map_of (promotionsMap (resolveLoop orama earlier)) placedId = Some existingPosition"
  let ?st = "resolveLoop orama earlier"
  have S: "allPromotions matchingRules = earlier @ promo # later" using a by (elim conjE)
  have rp: "getInternalDocumentId orama (doc_id promo) = Some placedId" using a by (elim conjE)
  have c: "consistent ?st" and b: "\<forall>q \<in> positionsTaken ?st. q \<le> position promo"
    by (rule resolved_split(1)[OF S], rule resolved_split(2)[OF S])
  have e: "map_of (promotionsMap ?st) placedId = Some existingPosition" using a by (elim conjE)
  have "existingPosition \<in> positionsTaken ?st" using c e by (rule consistent_taken)
  then show "existingPosition \<le> position promo" using b by simp
  have "placedId \<in> fst ` set (promotionsMap ?st)"
    using e by (metis map_of_SomeD image_eqI fst_conv)
  then have "placedId \<in> pinnedInternalIds ?st" using c by (simp add: consistent_def)
  then show "resolveStep orama ?st promo = ?st"
    unfolding resolveStep_sorted[OF c b] using rp by simp
qed

theorem repeated_promotion_moves_or_keeps_witness:
  "flatPromotions [promoting ''r1'' [(''A'', 5)], promoting ''r2'' [(''A'', 0)], promoting ''r3'' [(''B'', 5)]]
     = [] @ \<lparr>doc_id = ''A'', position = 5\<rparr> # [] @ \<lparr>doc_id = ''A'', position = 0\<rparr>
         # [\<lparr>doc_id = ''B'', position = 5\<rparr>] \<and>
   getInternalDocumentId demoOrama (doc_id \<lparr>doc_id = ''A'', position = 5\<rparr>) = Some 1 \<and>
   getInternalDocumentId demoOrama (doc_id \<lparr>doc_id = ''A'', position = 0\<rparr>) = Some 1 \<and>
   position \<lparr>doc_id = ''A'', position = 0\<rparr> < position \<lparr>doc_id = ''A'', position = 5\<rparr> \<and>
   [e \<leftarrow> promotionsMap (resolved demoOrama
            [promoting ''r1'' [(''A'', 5)], promoting ''r2'' [(''A'', 0)], promoting ''r3'' [(''B'', 5)]]).
      snd e = position \<lparr>doc_id = ''A'', position = 0\<rparr> \<and> fst e \<noteq> 1] = [] \<and>
   \<not> placedBelow demoOrama
       (promotionsMap (resolved demoOrama
          [promoting ''r1'' [(''A'', 5)], promoting ''r2'' [(''A'', 0)], promoting ''r3'' [(''B'', 5)]]))
       (position \<lparr>doc_id = ''A'', position = 0\<rparr>) \<lparr>doc_id = ''A'', position = 0\<rparr> \<and>
   allPromotions [promoting ''r1'' [(''A'', 5)], promoting ''r2'' [(''A'', 0)], promoting ''r3'' [(''B'', 5)]]
     = [\<lparr>doc_id = ''A'', position = 0\<rparr>] @ \<lparr>doc_id = ''A'', position = 5\<rparr>
         # [\<lparr>doc_id = ''B'', position = 5\<rparr>] \<and>
   map_of (promotionsMap (resolveLoop demoOrama [\<lparr>doc_id = ''A'', position = 0\<rparr>])) 1 = Some 0 \<and>
   map_of (promotionsMap (resolved demoOrama
       [promoting ''r1'' [(''A'', 5)], promoting ''r2'' [(''A'', 0)], promoting ''r3'' [(''B'', 5)]])) 1
     = Some (position \<lparr>doc_id = ''A'', position = 0\<rparr>) \<and>
   position \<lparr>doc_id = ''A'', position = 0\<rparr>
     \<in> positionsTaken (resolved demoOrama
         [promoting ''r1'' [(''A'', 5)], promoting ''r2'' [(''A'', 0)], promoting ''r3'' [(''B'', 5)]]) \<and>
   promotionsMap (resolved demoOrama
       [promoting ''r1'' [(''A'', 5)], promoting ''r2'' [(''A'', 0)], promoting ''r3'' [(''B'', 5)]])
     = [(1, 0), (2, 5)] \<and>
   0 \<le> position \<lparr>doc_id = ''A'', position = 5\<rparr> \<and>
   resolveStep demoOrama (resolveLoop demoOrama [\<lparr>doc_id = ''A'', position = 0\<rparr>])
       \<lparr>doc_id = ''A'', position = 5\<rparr>
     = resolveLoop demoOrama [\<lparr>doc_id = ''A'', position = 0\<rparr>]"
proof -
  let ?rules = "[promoting ''r1'' [(''A'', 5)], promoting ''r2'' [(''A'', 0)], promoting ''r3'' [(''B'', 5)]]"
  let ?old = "\<lparr>doc_id = ''A'', position = 5\<rparr>"
  let ?new = "\<lparr>doc_id = ''A'', position = 0\<rparr>"
  have h1: "flatPromotions ?rules = [] @ ?old # [] @ ?new # [\<lparr>doc_id = ''B'', position = 5\<rparr>]"
    by code_simp
  have h2: "getInternalDocumentId demoOrama (doc_id ?old) = Some 1" by code_simp
  have h3: "getInternalDocumentId demoOrama (doc_id ?new) = Some 1" by code_simp
  have h4: "position ?new < position ?old" by code_simp
  have h5: "[e \<leftarrow> promotionsMap (resolved demoOrama ?rules). snd e = position ?new \<and> fst e \<noteq> 1] = []"
    by code_simp
  have h6: "\<not> placedBelow demoOrama (promotionsMap (resolved demoOrama ?rules)) (position ?new) ?new"
    by code_simp
  have k1: "allPromotions ?rules = [?new] @ ?old # [\<lparr>doc_id = ''B'', position = 5\<rparr>]"
    by code_simp
  have k3: "map_of (promotionsMap (resolveLoop demoOrama [?new])) 1 = Some 0" by code_simp
  have e: "promotionsMap (resolved demoOrama ?rules) = [(1, 0), (2, 5)]" by code_simp
  note t = repeated_promotion_moves_or_keeps[where matchingRules = ?rules and orama = demoOrama
      and before = "[]" and older = ?old and between = "[]" and newer = ?new
      and after = "[\<lparr>doc_id = ''B'', position = 5\<rparr>]" and internalId = 1
      and earlier = "[?new]" and promo = ?old and later = "[\<lparr>doc_id = ''B'', position = 5\<rparr>]"
      and placedId = 1 and existingPosition = 0]
  from t h1 h2 h3 h4 h5 h6
  have c1: "map_of (promotionsMap (resolved demoOrama ?rules)) 1 = Some (position ?new)"
    and c2: "position ?new \<in> positionsTaken (resolved demoOrama ?rules)" by blast+
  from t k1 h2 k3
  have c3: "0 \<le> position ?old"
    and c4: "resolveStep demoOrama (resolveLoop demoOrama [?new]) ?old = resolveLoop demoOrama [?new]"
    by blast+
  show ?thesis using h1 h2 h3 h4 h5 h6 k1 k3 c1 c2 e c3 c4 by blast
qed

section \<open>Order of the unpinned results\<close>

text \<open>
  Claim C4. For every input, the entries of the organic list whose document is not pinned
  appear in the output in the same relative order as in the organic list: removing the
  pinned documents from the output and from the organic list gives the same list.
\<close>

theorem unpinned_order_preserved:
  "filter (\<lambda>r. fst r \<notin> pinnedInternalIds (resolved orama (getMatchingRules pinningStore searchTerm)))
     (applyPinningRules getMatchingRules orama pinningStore uniqueDocsArray searchTerm)
   = filter (\<lambda>r. fst r \<notin> pinnedInternalIds (resolved orama (getMatchingRules pinningStore searchTerm)))
       uniqueDocsArray"
proof -
  define rules where "rules = getMatchingRules pinningStore searchTerm"
  define Q where "Q = (\<lambda>r::tokenScore. fst r \<notin> pinnedInternalIds (resolved orama rules))"
  obtain ps where
    b: "map snd ps = pinnedResultsSorted orama rules uniqueDocsArray"
    and r: "appendRemaining (walked orama rules uniqueDocsArray) (pinnedByPositionFor orama rules uniqueDocsArray)
       = walked orama rules uniqueDocsArray
         @ map snd [e \<leftarrow> ps. length (walked orama rules uniqueDocsArray) \<le> fst e]"
    by (rule splice_structure[of orama rules uniqueDocsArray])
  have "\<forall>x \<in> set (map snd [e \<leftarrow> ps. length (walked orama rules uniqueDocsArray) \<le> fst e]). \<not> Q x"
  proof
    fix x assume "x \<in> set (map snd [e \<leftarrow> ps. length (walked orama rules uniqueDocsArray) \<le> fst e])"
    then have "x \<in> set (map snd ps)" by auto
    then show "\<not> Q x" unfolding b Q_def using pinned_are_pinned by blast
  qed
  then have "filter Q (map snd [e \<leftarrow> ps. length (walked orama rules uniqueDocsArray) \<le> fst e]) = []"
    by (simp add: filter_empty_conv)
  moreover have "filter Q (walked orama rules uniqueDocsArray) = filter Q uniqueDocsArray"
    unfolding Q_def walked_filter by (simp add: unpinnedResultsOf_def)
  ultimately have "filter Q (appendRemaining (walked orama rules uniqueDocsArray)
      (pinnedByPositionFor orama rules uniqueDocsArray)) = filter Q uniqueDocsArray"
    unfolding r by simp
  then show ?thesis unfolding applyPinningRules_splice Q_def rules_def .
qed

section \<open>Ids of the output\<close>

text \<open>
  Claim C5. For an organic list without duplicate ids (the parameter is
  \<^verbatim>\<open>uniqueDocsArray\<close>, the results after deduplication), the output holds no internal
  id twice, and every id of the output is an id of the organic list or the resolved id of a
  promotion of a matching rule whose document is in the organic list or in the document
  store.
\<close>

theorem output_ids_distinct_and_known:
  assumes "distinct (map fst uniqueDocsArray)"
  shows "distinct (map fst (applyPinningRules getMatchingRules orama pinningStore uniqueDocsArray searchTerm)) \<and>
         fst ` set (applyPinningRules getMatchingRules orama pinningStore uniqueDocsArray searchTerm)
           \<subseteq> fst ` set uniqueDocsArray \<union>
             {i. \<exists>promo \<in> set (flatPromotions (getMatchingRules pinningStore searchTerm)).
                   getInternalDocumentId orama (doc_id promo) = Some i \<and>
                   (i \<in> fst ` set uniqueDocsArray \<or> documentsStore_get orama i \<noteq> None)}"
proof -
  define rules where "rules = getMatchingRules pinningStore searchTerm"
  define out where "out = applyPinningRules getMatchingRules orama pinningStore uniqueDocsArray searchTerm"
  define U where "U = unpinnedResultsOf orama rules uniqueDocsArray"
  define Sp where "Sp = pinnedResultsSorted orama rules uniqueDocsArray"
  have out: "out = appendRemaining (walked orama rules uniqueDocsArray)
      (pinnedByPositionFor orama rules uniqueDocsArray)"
    unfolding out_def rules_def by (rule applyPinningRules_splice)
  have dU: "distinct (map fst U)"
    unfolding U_def unpinnedResultsOf_def using assms by (rule distinct_map_filter)
  have dS: "distinct (map fst Sp)" unfolding Sp_def by (rule pinnedResultsSorted_distinct)
  have "fst ` set U \<inter> fst ` set Sp = {}"
    unfolding U_def Sp_def
    using unpinned_not_pinned[of orama rules uniqueDocsArray] pinned_are_pinned[of _ orama rules uniqueDocsArray]
    by fastforce
  then have "distinct (map fst U @ map fst Sp)" using dU dS by simp
  moreover have "mset (map fst out) = mset (map fst U @ map fst Sp)"
    unfolding out U_def Sp_def by (rule splice_ids_mset)
  ultimately have d: "distinct (map fst out)" by (metis mset_eq_imp_distinct_iff)
  have "i \<in> fst ` set uniqueDocsArray \<or>
        (\<exists>promo \<in> set (flatPromotions rules).
           getInternalDocumentId orama (doc_id promo) = Some i \<and>
           (i \<in> fst ` set uniqueDocsArray \<or> documentsStore_get orama i \<noteq> None))"
    if "i \<in> fst ` set out" for i
  proof -
    from that obtain s where "(i, s) \<in> set out" by auto
    then have "(i, s) \<in> set U \<or> (i, s) \<in> set Sp"
      unfolding out U_def Sp_def splice_set by simp
    then show ?thesis
    proof
      assume "(i, s) \<in> set U"
      then have "(i, s) \<in> set uniqueDocsArray" unfolding U_def using unpinned_subset by blast
      then show ?thesis by force
    next
      assume "(i, s) \<in> set Sp"
      then obtain p where p: "map_of (promotionsMap (resolved orama rules)) i = Some p"
        and v: "i \<in> fst ` set uniqueDocsArray \<or> documentsStore_get orama i \<noteq> None"
        unfolding Sp_def pinned_entry by (auto split: if_splits)
      from resolved_origin[OF p] v show ?thesis by blast
    qed
  qed
  then have "fst ` set out \<subseteq> fst ` set uniqueDocsArray \<union>
             {i. \<exists>promo \<in> set (flatPromotions rules).
                   getInternalDocumentId orama (doc_id promo) = Some i \<and>
                   (i \<in> fst ` set uniqueDocsArray \<or> documentsStore_get orama i \<noteq> None)}"
    by blast
  with d show ?thesis unfolding out_def rules_def by simp
qed

theorem output_ids_distinct_and_known_witness:
  "distinct (map fst demoOrganic) \<and>
   distinct (map fst (applyPinningRules (\<lambda>store term. [promoting ''r1'' [(''B'', 0), (''D'', 2)]])
       demoOrama () demoOrganic (Some ''q''))) \<and>
   fst ` set (applyPinningRules (\<lambda>store term. [promoting ''r1'' [(''B'', 0), (''D'', 2)]])
       demoOrama () demoOrganic (Some ''q''))
     \<subseteq> fst ` set demoOrganic \<union>
       {i. \<exists>promo \<in> set (flatPromotions [promoting ''r1'' [(''B'', 0), (''D'', 2)]]).
             getInternalDocumentId demoOrama (doc_id promo) = Some i \<and>
             (i \<in> fst ` set demoOrganic \<or> documentsStore_get demoOrama i \<noteq> None)}"
proof -
  have h: "distinct (map fst demoOrganic)" by code_simp
  from output_ids_distinct_and_known
    [where getMatchingRules = "\<lambda>store term. [promoting ''r1'' [(''B'', 0), (''D'', 2)]]" and pinningStore = "()"
       and searchTerm = "Some ''q''" and orama = demoOrama, OF h] h
  show ?thesis by (rule conjI[rotated])
qed

section \<open>Scores of the pins\<close>

text \<open>
  Claim C6. A document placed at position \<open>p\<close> that is in the organic list is in the
  output with the score \<^verbatim>\<open>BASE_PIN_SCORE - p\<close>, where \<^verbatim>\<open>BASE_PIN_SCORE\<close> is
  1000000, and with no other score; one that is not in the organic list but is in the
  document store is in the output with the score 0, and with no other score.
\<close>

theorem pin_score:
  assumes "map_of (promotionsMap (resolved orama (getMatchingRules pinningStore searchTerm))) i = Some p"
    and "i \<in> fst ` set uniqueDocsArray \<or> documentsStore_get orama i \<noteq> None"
  shows "(i, s) \<in> set (applyPinningRules getMatchingRules orama pinningStore uniqueDocsArray searchTerm)
           \<longleftrightarrow> s = (if i \<in> fst ` set uniqueDocsArray then BASE_PIN_SCORE - int p else 0)"
proof -
  define rules where "rules = getMatchingRules pinningStore searchTerm"
  have "i \<in> fst ` set (promotionsMap (resolved orama rules))"
    using assms(1) unfolding rules_def by (metis map_of_SomeD image_eqI fst_conv)
  then have "i \<in> pinnedInternalIds (resolved orama rules)"
    using resolved_consistent[of orama rules] by (simp add: consistent_def)
  then have "(i, s) \<notin> set (unpinnedResultsOf orama rules uniqueDocsArray)"
    using unpinned_not_pinned[of orama rules uniqueDocsArray] by fastforce
  then have "(i, s) \<in> set (applyPinningRules getMatchingRules orama pinningStore uniqueDocsArray searchTerm)
      \<longleftrightarrow> (i, s) \<in> set (pinnedResultsSorted orama rules uniqueDocsArray)"
    unfolding applyPinningRules_splice rules_def[symmetric] splice_set by simp
  also have "\<dots> \<longleftrightarrow> s = (if i \<in> fst ` set uniqueDocsArray then BASE_PIN_SCORE - int p else 0)"
    unfolding pinned_entry using assms unfolding rules_def[symmetric] by auto
  finally show ?thesis .
qed

theorem pin_score_witness:
  "map_of (promotionsMap (resolved demoOrama [promoting ''r1'' [(''B'', 0), (''D'', 2)]])) 2 = Some 0 \<and>
   (2 \<in> fst ` set demoOrganic \<or> documentsStore_get demoOrama 2 \<noteq> None) \<and>
   (2, 1000000) \<in> set (applyPinningRules (\<lambda>store term. [promoting ''r1'' [(''B'', 0), (''D'', 2)]])
       demoOrama () demoOrganic (Some ''q'')) \<and>
   map_of (promotionsMap (resolved demoOrama [promoting ''r1'' [(''B'', 0), (''D'', 2)]])) 4 = Some 2 \<and>
   (4 \<in> fst ` set demoOrganic \<or> documentsStore_get demoOrama 4 \<noteq> None) \<and>
   4 \<notin> fst ` set demoOrganic \<and>
   (4, 0) \<in> set (applyPinningRules (\<lambda>store term. [promoting ''r1'' [(''B'', 0), (''D'', 2)]])
       demoOrama () demoOrganic (Some ''q''))"
proof -
  let ?rules = "[promoting ''r1'' [(''B'', 0), (''D'', 2)]]"
  have b1: "map_of (promotionsMap (resolved demoOrama ?rules)) 2 = Some 0" by code_simp
  have b2: "2 \<in> fst ` set demoOrganic \<or> documentsStore_get demoOrama 2 \<noteq> None" by code_simp
  have b3: "(1000000::int) = (if 2 \<in> fst ` set demoOrganic then BASE_PIN_SCORE - int 0 else 0)"
    by code_simp
  have d1: "map_of (promotionsMap (resolved demoOrama ?rules)) 4 = Some 2" by code_simp
  have d2: "4 \<in> fst ` set demoOrganic \<or> documentsStore_get demoOrama 4 \<noteq> None" by code_simp
  have d3: "(0::int) = (if 4 \<in> fst ` set demoOrganic then BASE_PIN_SCORE - int 2 else 0)"
    by code_simp
  have d4: "4 \<notin> fst ` set demoOrganic" by code_simp
  have "(2, 1000000) \<in> set (applyPinningRules (\<lambda>store term. ?rules) demoOrama () demoOrganic (Some ''q''))"
    using pin_score[where getMatchingRules = "\<lambda>store term. ?rules" and pinningStore = "()"
       and searchTerm = "Some ''q''", OF b1 b2, of 1000000] b3 by blast
  moreover
  have "(4, 0) \<in> set (applyPinningRules (\<lambda>store term. ?rules) demoOrama () demoOrganic (Some ''q''))"
    using pin_score[where getMatchingRules = "\<lambda>store term. ?rules" and pinningStore = "()"
       and searchTerm = "Some ''q''", OF d1 d2, of 0] d3 by blast
  ultimately show ?thesis using b1 b2 d1 d2 d4 by blast
qed

section \<open>Stale promotions\<close>

text \<open>
  Claim C7. The function is total: it returns a list on every input, and no branch of it
  raises. A promotion whose document id does not resolve leaves the state of the loop as it
  is; a document that is neither in the organic list nor in the document store is not in
  the output; and if every promotion of the matching rules is stale, the output is the
  organic list.
\<close>

theorem stale_promotions_dropped:
  "(getInternalDocumentId orama (doc_id promo) = None \<longrightarrow> resolveStep orama st promo = st) \<and>
   (i \<notin> fst ` set uniqueDocsArray \<and> documentsStore_get orama i = None \<longrightarrow>
      i \<notin> fst ` set (applyPinningRules getMatchingRules orama pinningStore uniqueDocsArray searchTerm)) \<and>
   (list_all (stale orama uniqueDocsArray) (flatPromotions (getMatchingRules pinningStore searchTerm)) \<longrightarrow>
      applyPinningRules getMatchingRules orama pinningStore uniqueDocsArray searchTerm = uniqueDocsArray)"
proof (intro conjI impI)
  assume "getInternalDocumentId orama (doc_id promo) = None"
  then show "resolveStep orama st promo = st" by (simp add: resolveStep_def)
next
  define rules where "rules = getMatchingRules pinningStore searchTerm"
  assume a: "i \<notin> fst ` set uniqueDocsArray \<and> documentsStore_get orama i = None"
  have "(i, s) \<notin> set (applyPinningRules getMatchingRules orama pinningStore uniqueDocsArray searchTerm)" for s
  proof -
    have "(i, s) \<notin> set (unpinnedResultsOf orama rules uniqueDocsArray)"
      using a unpinned_subset[of orama rules uniqueDocsArray] by force
    moreover have "(i, s) \<notin> set (pinnedResultsSorted orama rules uniqueDocsArray)"
      unfolding pinned_entry using a by auto
    ultimately show ?thesis unfolding applyPinningRules_splice rules_def[symmetric] splice_set by simp
  qed
  then show "i \<notin> fst ` set (applyPinningRules getMatchingRules orama pinningStore uniqueDocsArray searchTerm)"
    by auto
next
  assume "list_all (stale orama uniqueDocsArray) (flatPromotions (getMatchingRules pinningStore searchTerm))"
  then show "applyPinningRules getMatchingRules orama pinningStore uniqueDocsArray searchTerm = uniqueDocsArray"
    unfolding applyPinningRules_splice by (rule stale_all_identity)
qed

theorem stale_promotions_dropped_witness:
  "getInternalDocumentId demoOrama (doc_id \<lparr>doc_id = ''Z'', position = 1\<rparr>) = None \<and>
   (9 \<notin> fst ` set demoOrganic \<and> documentsStore_get demoOrama 9 = None) \<and>
   getInternalDocumentId demoOrama ''S'' = Some 9 \<and>
   list_all (stale demoOrama demoOrganic) (flatPromotions [promoting ''r1'' [(''S'', 0), (''Z'', 1)]]) \<and>
   resolveStep demoOrama initialState \<lparr>doc_id = ''Z'', position = 1\<rparr> = initialState \<and>
   9 \<notin> fst ` set (applyPinningRules (\<lambda>store term. [promoting ''r1'' [(''S'', 0), (''Z'', 1)]])
       demoOrama () demoOrganic (Some ''q'')) \<and>
   applyPinningRules (\<lambda>store term. [promoting ''r1'' [(''S'', 0), (''Z'', 1)]]) demoOrama () demoOrganic (Some ''q'')
     = demoOrganic"
proof -
  let ?rules = "[promoting ''r1'' [(''S'', 0), (''Z'', 1)]]"
  have h1: "getInternalDocumentId demoOrama (doc_id \<lparr>doc_id = ''Z'', position = 1\<rparr>) = None"
    by code_simp
  have h2: "9 \<notin> fst ` set demoOrganic \<and> documentsStore_get demoOrama 9 = None" by code_simp
  have h3: "list_all (stale demoOrama demoOrganic) (flatPromotions ?rules)" by code_simp
  have h4: "getInternalDocumentId demoOrama ''S'' = Some 9" by code_simp
  note t = stale_promotions_dropped[where getMatchingRules = "\<lambda>store term. ?rules" and pinningStore = "()"
       and searchTerm = "Some ''q''" and orama = demoOrama and uniqueDocsArray = demoOrganic
       and promo = "\<lparr>doc_id = ''Z'', position = 1\<rparr>" and st = initialState and i = 9]
  from t h1 have "resolveStep demoOrama initialState \<lparr>doc_id = ''Z'', position = 1\<rparr> = initialState"
    by blast
  moreover from t h2 have "9 \<notin> fst ` set (applyPinningRules (\<lambda>store term. ?rules)
       demoOrama () demoOrganic (Some ''q''))" by blast
  moreover from t h3 have "applyPinningRules (\<lambda>store term. ?rules) demoOrama () demoOrganic (Some ''q'')
     = demoOrganic" by blast
  ultimately show ?thesis using h1 h2 h3 h4 by blast
qed

section \<open>No matching rule\<close>

text \<open>
  Claim C8. If no rule matches the query, that is, the list of matching rules is empty,
  \<^verbatim>\<open>applyPinningRules\<close> returns the organic list it was given, unchanged.
\<close>

theorem no_matching_rule_identity:
  assumes "getMatchingRules pinningStore searchTerm = []"
  shows "applyPinningRules getMatchingRules orama pinningStore uniqueDocsArray searchTerm
     = uniqueDocsArray"
  using assms by (simp add: applyPinningRules_def)

theorem no_matching_rule_identity_witness:
  "(\<lambda>store term. []) () (Some ''anything'') = ([] :: pinRule list) \<and>
   applyPinningRules (\<lambda>store term. []) demoOrama () demoOrganic (Some ''anything'') = demoOrganic"
proof -
  have h: "(\<lambda>store term. []) () (Some ''anything'') = ([] :: pinRule list)" by simp
  from no_matching_rule_identity[of "\<lambda>store term. []" "()" "Some ''anything''" demoOrama demoOrganic, OF h]
  show ?thesis by simp
qed

section \<open>Pins beyond the walk\<close>

text \<open>
  Claim C9. The output is the list built by the interleaving walk followed by the placed
  pins whose claimed position is at least the length of that list, in the order of
  \<^verbatim>\<open>pinnedByPosition\<close>; this map holds every placed pin under its claimed position, in
  strictly ascending order of position. With the organic list \<^verbatim>\<open>[A, B, C]\<close> and the
  single pin \<^verbatim>\<open>X at 10\<close>, the output is \<^verbatim>\<open>[A, B, C, X]\<close>.
\<close>

theorem remaining_pins_appended_ascending:
  "applyPinningRules getMatchingRules orama pinningStore uniqueDocsArray searchTerm
     = walked orama (getMatchingRules pinningStore searchTerm) uniqueDocsArray
       @ map snd [e \<leftarrow> pinnedByPositionFor orama (getMatchingRules pinningStore searchTerm) uniqueDocsArray.
                   case fst e of
                     Some pos \<Rightarrow> length (walked orama (getMatchingRules pinningStore searchTerm) uniqueDocsArray) \<le> pos
                   | None \<Rightarrow> False] \<and>
   sorted_wrt (\<lambda>a b. \<exists>pos pos'. fst a = Some pos \<and> fst b = Some pos' \<and> pos < pos')
     (pinnedByPositionFor orama (getMatchingRules pinningStore searchTerm) uniqueDocsArray) \<and>
   pinnedByPositionFor orama (getMatchingRules pinningStore searchTerm) uniqueDocsArray
     = map (\<lambda>r. (map_of (promotionsMap (resolved orama (getMatchingRules pinningStore searchTerm))) (fst r), r))
         (pinnedResultsSorted orama (getMatchingRules pinningStore searchTerm) uniqueDocsArray) \<and>
   applyPinningRules (\<lambda>store term. [promoting ''r1'' [(''X'', 10)]]) demoOrama () demoOrganic (Some ''q'')
     = [(1, 9), (2, 8), (3, 7), (5, 0)]"
proof -
  define rules where "rules = getMatchingRules pinningStore searchTerm"
  define L where "L = length (walked orama rules uniqueDocsArray)"
  obtain ps where
    a: "pinnedByPositionFor orama rules uniqueDocsArray = map (\<lambda>e. (Some (fst e), snd e)) ps"
    and b: "map snd ps = pinnedResultsSorted orama rules uniqueDocsArray"
    and srt: "sorted_wrt (<) (map fst ps)"
    and k: "\<forall>e \<in> set ps. map_of (promotionsMap (resolved orama rules)) (fst (snd e)) = Some (fst e)"
    and r: "appendRemaining (walked orama rules uniqueDocsArray) (pinnedByPositionFor orama rules uniqueDocsArray)
       = walked orama rules uniqueDocsArray
         @ map snd [e \<leftarrow> ps. length (walked orama rules uniqueDocsArray) \<le> fst e]"
    by (rule splice_structure[of orama rules uniqueDocsArray])
  have out: "applyPinningRules getMatchingRules orama pinningStore uniqueDocsArray searchTerm
     = walked orama rules uniqueDocsArray @ map snd [e \<leftarrow> ps. L \<le> fst e]"
    unfolding applyPinningRules_splice rules_def[symmetric] r L_def ..
  have "map snd [e \<leftarrow> map (\<lambda>e. (Some (fst e), snd e)) ps.
                   case fst e of Some pos \<Rightarrow> L \<le> pos | None \<Rightarrow> False]
        = map snd [e \<leftarrow> ps. L \<le> fst e]"
    by (induction ps) auto
  then have 1: "applyPinningRules getMatchingRules orama pinningStore uniqueDocsArray searchTerm
     = walked orama rules uniqueDocsArray
       @ map snd [e \<leftarrow> pinnedByPositionFor orama rules uniqueDocsArray.
                   case fst e of Some pos \<Rightarrow> L \<le> pos | None \<Rightarrow> False]"
    unfolding out a by simp
  have 2: "sorted_wrt (\<lambda>a b. \<exists>pos pos'. fst a = Some pos \<and> fst b = Some pos' \<and> pos < pos')
     (pinnedByPositionFor orama rules uniqueDocsArray)"
    unfolding a using srt by (simp add: sorted_wrt_map)
  have "map (\<lambda>r. (map_of (promotionsMap (resolved orama rules)) (fst r), r)) (map snd ps)
      = map (\<lambda>e. (Some (fst e), snd e)) ps"
    using k by simp
  then have 3: "pinnedByPositionFor orama rules uniqueDocsArray
     = map (\<lambda>r. (map_of (promotionsMap (resolved orama rules)) (fst r), r))
         (pinnedResultsSorted orama rules uniqueDocsArray)"
    unfolding a b by simp
  have 4: "applyPinningRules (\<lambda>store term. [promoting ''r1'' [(''X'', 10)]]) demoOrama () demoOrganic (Some ''q'')
     = [(1, 9), (2, 8), (3, 7), (5, 0)]"
    by code_simp
  show ?thesis using 1 2 3 4 unfolding L_def rules_def by blast
qed

section \<open>No pin is lost\<close>

text \<open>
  Claim C10. Every document that is placed by the loop and is in the organic list or in the
  document store has exactly one entry in the output, and the output is, as a multiset, the
  unpinned entries of the organic list together with the pinned results; in particular its
  length is the sum of their lengths, also when positions lie beyond the built list.
\<close>

theorem no_surviving_pin_lost:
  assumes "map_of (promotionsMap (resolved orama (getMatchingRules pinningStore searchTerm))) i = Some p"
    and "i \<in> fst ` set uniqueDocsArray \<or> documentsStore_get orama i \<noteq> None"
  shows "length [r \<leftarrow> applyPinningRules getMatchingRules orama pinningStore uniqueDocsArray searchTerm.
                  fst r = i] = 1 \<and>
         length (applyPinningRules getMatchingRules orama pinningStore uniqueDocsArray searchTerm)
           = length (unpinnedResultsOf orama (getMatchingRules pinningStore searchTerm) uniqueDocsArray)
             + length (pinnedResultsSorted orama (getMatchingRules pinningStore searchTerm) uniqueDocsArray) \<and>
         mset (applyPinningRules getMatchingRules orama pinningStore uniqueDocsArray searchTerm)
           = mset (unpinnedResultsOf orama (getMatchingRules pinningStore searchTerm) uniqueDocsArray)
             + mset (pinnedResultsSorted orama (getMatchingRules pinningStore searchTerm) uniqueDocsArray)"
proof -
  define rules where "rules = getMatchingRules pinningStore searchTerm"
  define out where "out = applyPinningRules getMatchingRules orama pinningStore uniqueDocsArray searchTerm"
  define U where "U = unpinnedResultsOf orama rules uniqueDocsArray"
  define Sp where "Sp = pinnedResultsSorted orama rules uniqueDocsArray"
  have m: "mset out = mset U + mset Sp"
    unfolding out_def U_def Sp_def rules_def applyPinningRules_splice by (rule splice_mset)
  then have l: "length out = length U + length Sp" by (metis length_append mset_append mset_eq_length)
  obtain s where s: "(i, s) \<in> set Sp"
    using assms pinned_entry[of i _ orama rules uniqueDocsArray] unfolding Sp_def rules_def
    by (cases "i \<in> fst ` set uniqueDocsArray") auto
  have "i \<in> pinnedInternalIds (resolved orama rules)"
    using s pinned_are_pinned unfolding Sp_def by fastforce
  then have "filter (\<lambda>r. fst r = i) U = []"
    unfolding U_def using unpinned_not_pinned[of orama rules uniqueDocsArray]
    by (auto simp: filter_empty_conv)
  moreover have "length (filter (\<lambda>r. fst r = i) Sp) = 1"
  proof -
    have "distinct (map fst Sp)" unfolding Sp_def by (rule pinnedResultsSorted_distinct)
    moreover have "i \<in> fst ` set Sp" using s by force
    ultimately show ?thesis by (rule one_entry_per_id)
  qed
  moreover have "mset (filter (\<lambda>r. fst r = i) out)
      = mset (filter (\<lambda>r. fst r = i) U) + mset (filter (\<lambda>r. fst r = i) Sp)"
    using m by simp
  ultimately have "length (filter (\<lambda>r. fst r = i) out) = 1"
    by (metis add.left_neutral mset.simps(1) mset_eq_length)
  then show ?thesis using l m unfolding out_def U_def Sp_def rules_def by simp
qed

theorem no_surviving_pin_lost_witness:
  "map_of (promotionsMap (resolved demoOrama [promoting ''r1'' [(''X'', 10), (''B'', 7)]])) 5 = Some 10 \<and>
   (5 \<in> fst ` set demoOrganic \<or> documentsStore_get demoOrama 5 \<noteq> None) \<and>
   length [r \<leftarrow> applyPinningRules (\<lambda>store term. [promoting ''r1'' [(''X'', 10), (''B'', 7)]])
                  demoOrama () demoOrganic (Some ''q''). fst r = 5] = 1 \<and>
   length (applyPinningRules (\<lambda>store term. [promoting ''r1'' [(''X'', 10), (''B'', 7)]])
             demoOrama () demoOrganic (Some ''q''))
     = length (unpinnedResultsOf demoOrama [promoting ''r1'' [(''X'', 10), (''B'', 7)]] demoOrganic)
       + length (pinnedResultsSorted demoOrama [promoting ''r1'' [(''X'', 10), (''B'', 7)]] demoOrganic) \<and>
   applyPinningRules (\<lambda>store term. [promoting ''r1'' [(''X'', 10), (''B'', 7)]]) demoOrama () demoOrganic (Some ''q'')
     = [(1, 9), (3, 7), (2, 999993), (5, 0)]"
proof -
  let ?rules = "[promoting ''r1'' [(''X'', 10), (''B'', 7)]]"
  have h1: "map_of (promotionsMap (resolved demoOrama ?rules)) 5 = Some 10" by code_simp
  have h2: "5 \<in> fst ` set demoOrganic \<or> documentsStore_get demoOrama 5 \<noteq> None" by code_simp
  have e: "applyPinningRules (\<lambda>store term. ?rules) demoOrama () demoOrganic (Some ''q'')
     = [(1, 9), (3, 7), (2, 999993), (5, 0)]" by code_simp
  note t = no_surviving_pin_lost[where getMatchingRules = "\<lambda>store term. ?rules" and pinningStore = "()"
       and searchTerm = "Some ''q''", OF h1 h2]
  from t have "length [r \<leftarrow> applyPinningRules (\<lambda>store term. ?rules)
                  demoOrama () demoOrganic (Some ''q''). fst r = 5] = 1" by (rule conjunct1)
  moreover from t have "length (applyPinningRules (\<lambda>store term. ?rules) demoOrama () demoOrganic (Some ''q''))
     = length (unpinnedResultsOf demoOrama ?rules demoOrganic)
       + length (pinnedResultsSorted demoOrama ?rules demoOrganic)" by blast
  ultimately show ?thesis using h1 h2 e by blast
qed

end
